theory Spec2Isabelle
  imports Main "HOL-Library.AList" "HOL-Library.Sublist"
begin

section \<open>Python values\<close>

text \<open>
  The logger stores arbitrary Python values. The embedding keeps the kinds the claims
  talk about: \<open>None\<close>, integers, strings, lists and dictionaries with string keys
  (the \<open>Dict[str, Any]\<close> of the type hints). A dictionary is an association list in
  insertion order, as Python iterates it.
\<close>

datatype val =
    NoneV
  | IntV int
  | StrV string
  | ListV "val list"
  | DictV "(string \<times> val) list"

text \<open>\<open>isinstance(val, Iterable)\<close>: strings, lists and dictionaries are iterable.\<close>

fun is_iterable :: "val \<Rightarrow> bool" where
  "is_iterable NoneV = False"
| "is_iterable (IntV i) = False"
| "is_iterable (StrV s) = True"
| "is_iterable (ListV vs) = True"
| "is_iterable (DictV d) = True"

text \<open>
  The elements \<open>list.extend\<close> takes from an iterable: the one-character strings of a
  string, the elements of a list, the keys of a dictionary.
\<close>

fun iter_items :: "val \<Rightarrow> val list" where
  "iter_items (StrV s) = map (\<lambda>c. StrV [c]) s"
| "iter_items (ListV vs) = vs"
| "iter_items (DictV d) = map (\<lambda>kv. StrV (fst kv)) d"
| "iter_items NoneV = []"
| "iter_items (IntV i) = []"

text \<open>
  \<open>list.extend\<close> and \<open>list.append\<close> as operations on the stored list: the list after
  the call and the value the call returns (\<open>None\<close>). The identity operation of
  \<open>__getitem__\<close> returns the list itself.
\<close>

definition list_extend :: "val \<Rightarrow> val list \<Rightarrow> val list \<times> val" where
  "list_extend v lst = (lst @ iter_items v, NoneV)"

definition list_append :: "val \<Rightarrow> val list \<Rightarrow> val list \<times> val" where
  "list_append v lst = (lst @ [v], NoneV)"

definition list_ident :: "val list \<Rightarrow> val list \<times> val" where
  "list_ident lst = (lst, ListV lst)"

section \<open>Virtual paths\<close>

text \<open>\<open>s.split(sep)\<close>: all the segments between separators; never the empty list.\<close>

fun str_split :: "char \<Rightarrow> string \<Rightarrow> string list" where
  "str_split sep [] = [[]]"
| "str_split sep (c # cs) =
     (if c = sep then [] # str_split sep cs
      else (c # hd (str_split sep cs)) # tl (str_split sep cs))"

text \<open>\<open>s.split(sep, 1)\<close>: cut at the first separator, if there is one.\<close>

definition str_split1 :: "char \<Rightarrow> string \<Rightarrow> string list" where
  "str_split1 sep s =
     (if sep \<in> set s
      then [takeWhile (\<lambda>c. c \<noteq> sep) s, tl (dropWhile (\<lambda>c. c \<noteq> sep) s)]
      else [s])"

text \<open>\<open>s.rsplit(sep, 1)\<close>: cut at the last separator, if there is one.\<close>

definition str_rsplit1 :: "char \<Rightarrow> string \<Rightarrow> string list" where
  "str_rsplit1 sep s =
     (if sep \<in> set s
      then [rev (tl (dropWhile (\<lambda>c. c \<noteq> sep) (rev s))), rev (takeWhile (\<lambda>c. c \<noteq> sep) (rev s))]
      else [s])"

definition split_vpath :: "string \<Rightarrow> string \<times> string" where
  "split_vpath vpath =
     (let paths = str_split1 (CHR ''/'') vpath
      in if length paths = 2 then (paths ! 0, paths ! 1) else (paths ! 0, []))"

definition rsplit_vpath :: "string \<Rightarrow> string \<times> string" where
  "rsplit_vpath vpath =
     (let paths = str_rsplit1 (CHR ''/'') vpath
      in if length paths = 2 then (paths ! 0, paths ! 1) else ([], paths ! 0))"

section \<open>Nodes in a store\<close>

text \<open>
  Loggers share nodes by reference, so nodes live in a store: a node is named by its
  address, \<open>children\<close> maps a key to the address of the child, and every operation takes
  the store and returns the updated one. \<open>next_addr\<close> is the first address not yet
  handed out. The two dictionaries of a node are association lists in insertion order.
  The value lists are kept in the node itself: the identity of a list object is not
  modelled.
\<close>

type_synonym addr = nat

record lognode =
  data :: "(string \<times> val list) list"
  children :: "(string \<times> addr) list"

record heap =
  nodes :: "addr \<Rightarrow> lognode"
  next_addr :: addr

definition empty_heap :: heap where
  "empty_heap = \<lparr>nodes = (\<lambda>a. \<lparr>data = [], children = []\<rparr>), next_addr = 0\<rparr>"

text \<open>\<open>LogNode()\<close>: a new node with two empty dictionaries.\<close>

definition new_lognode :: "heap \<Rightarrow> addr \<times> heap" where
  "new_lognode h =
     (next_addr h,
      h\<lparr>nodes := (nodes h)(next_addr h := \<lparr>data = [], children = []\<rparr>),
        next_addr := Suc (next_addr h)\<rparr>)"

definition set_data :: "heap \<Rightarrow> addr \<Rightarrow> (string \<times> val list) list \<Rightarrow> heap" where
  "set_data h a d = h\<lparr>nodes := (nodes h)(a := (nodes h a)\<lparr>data := d\<rparr>)\<rparr>"

definition set_children :: "heap \<Rightarrow> addr \<Rightarrow> (string \<times> addr) list \<Rightarrow> heap" where
  "set_children h a cs = h\<lparr>nodes := (nodes h)(a := (nodes h a)\<lparr>children := cs\<rparr>)\<rparr>"

subsection \<open>\<open>LogNode.clear\<close> and \<open>LogNode.parse\<close>\<close>

text \<open>
  Both methods recurse through the children. The store may hold a cycle, where Python
  recurses until its recursion limit; the first argument is that limit, and \<open>None\<close>
  is the recursion that did not return.
\<close>

fun node_clear :: "nat \<Rightarrow> heap \<Rightarrow> addr \<Rightarrow> heap option"
  and clear_children :: "nat \<Rightarrow> heap \<Rightarrow> addr list \<Rightarrow> heap option" where
  "node_clear 0 h a = None"
| "node_clear (Suc n) h a =
     (case clear_children n h (map snd (children (nodes h a))) of
        None \<Rightarrow> None
      | Some h' \<Rightarrow> Some (set_data h' a []))"
| "clear_children n h [] = Some h"
| "clear_children n h (child # rest) =
     (case node_clear n h child of
        None \<Rightarrow> None
      | Some h' \<Rightarrow> clear_children n h' rest)"

fun node_parse :: "nat \<Rightarrow> heap \<Rightarrow> addr \<Rightarrow> (string \<times> val) list option"
  and parse_children ::
    "nat \<Rightarrow> heap \<Rightarrow> (string \<times> addr) list \<Rightarrow> (string \<times> val) list \<Rightarrow> (string \<times> val) list option"
  where
  "node_parse 0 h a = None"
| "node_parse (Suc n) h a =
     parse_children n h (children (nodes h a))
       (map (\<lambda>kl. (fst kl, ListV (snd kl))) (data (nodes h a)))"
| "parse_children n h [] result = Some result"
| "parse_children n h ((key, child) # rest) result =
     (case node_parse n h child of
        None \<Rightarrow> None
      | Some parsed \<Rightarrow>
          parse_children n h rest
            (if parsed \<noteq> [] then AList.update key (DictV parsed) result else result))"

section \<open>The logger\<close>

datatype logger = Logger (root: addr)

datatype error = KeyError string | TypeError string | AttributeError string

text \<open>\<open>Logger()\<close>: a logger on a new root node.\<close>

definition new_logger :: "heap \<Rightarrow> logger \<times> heap" where
  "new_logger h = (let (a, h') = new_lognode h in (Logger a, h'))"

text \<open>\<open>key in d\<close> for a dictionary \<open>d\<close>.\<close>

definition key_in :: "'k \<Rightarrow> ('k \<times> 'v) list \<Rightarrow> bool" where
  "key_in k d = (map_of d k \<noteq> None)"

text \<open>The loop of \<open>__contains__\<close>: follow the keys through \<open>children\<close>.\<close>

fun descend :: "heap \<Rightarrow> addr \<Rightarrow> string list \<Rightarrow> addr option" where
  "descend h a [] = Some a"
| "descend h a (key # keys) =
     (case map_of (children (nodes h a)) key of
        None \<Rightarrow> None
      | Some c \<Rightarrow> descend h c keys)"

definition contains :: "heap \<Rightarrow> logger \<Rightarrow> string \<Rightarrow> bool" where
  "contains h self vpath =
     (if vpath = [] then True
      else
        (let keys = str_split (CHR ''/'') vpath;
             dir_keys = butlast keys;
             last_key = last keys
         in case descend h (root self) dir_keys of
              None \<Rightarrow> False
            | Some current_node \<Rightarrow>
                key_in last_key (children (nodes h current_node))
                \<or> key_in last_key (data (nodes h current_node))))"

text \<open>
  \<open>current_node.children.setdefault(key, LogNode())\<close>: the child under \<open>key\<close>, put
  there first when the key is missing. The node that \<open>LogNode()\<close> builds when the key is
  already there is dropped at once and is not kept in the store.
\<close>

definition children_setdefault :: "heap \<Rightarrow> addr \<Rightarrow> string \<Rightarrow> addr \<times> heap" where
  "children_setdefault h a key =
     (case map_of (children (nodes h a)) key of
        Some c \<Rightarrow> (c, h)
      | None \<Rightarrow>
          (let (n, h1) = new_lognode h
           in (n, set_children h1 a (children (nodes h1 a) @ [(key, n)]))))"

text \<open>The loop of \<open>_traverse\<close>.\<close>

fun setdefault_walk :: "heap \<Rightarrow> addr \<Rightarrow> string list \<Rightarrow> addr \<times> heap" where
  "setdefault_walk h a [] = (a, h)"
| "setdefault_walk h a (key # keys) =
     setdefault_walk (snd (children_setdefault h a key)) (fst (children_setdefault h a key)) keys"

definition traverse :: "heap \<Rightarrow> logger \<Rightarrow> string \<Rightarrow> bool \<Rightarrow> (error + addr) \<times> heap" where
  "traverse h self vpath create =
     (if vpath = [] then (Inr (root self), h)
      else if \<not> create \<and> \<not> contains h self vpath
      then (Inl (KeyError (''vpath '' @ vpath @ '' does not exist.'')), h)
      else (let (n, h') = setdefault_walk h (root self) (str_split (CHR ''/'') vpath)
            in (Inr n, h')))"

text \<open>
  \<open>_do_data_op\<close>: \<open>lst\<close> is \<open>node_data.setdefault(data_key, [])\<close> with creation and
  \<open>node_data[data_key]\<close> (a \<open>KeyError\<close> when the key is missing) without; \<open>op\<close> then
  works on the list in place, which is the entry of \<open>data_key\<close> in the dictionary.
\<close>

definition do_data_op ::
  "heap \<Rightarrow> logger \<Rightarrow> string \<Rightarrow> (val list \<Rightarrow> val list \<times> val) \<Rightarrow> bool \<Rightarrow> (error + val) \<times> heap"
  where
  "do_data_op h self vpath op create =
     (let (dir_path, data_key) = rsplit_vpath vpath
      in case traverse h self dir_path create of
           (Inl e, h1) \<Rightarrow> (Inl e, h1)
         | (Inr n, h1) \<Rightarrow>
             (let node_data = data (nodes h1 n)
              in case (if create
                       then Some (case map_of node_data data_key of Some l \<Rightarrow> l | None \<Rightarrow> [])
                       else map_of node_data data_key) of
                   None \<Rightarrow> (Inl (KeyError data_key), h1)
                 | Some lst \<Rightarrow>
                     (let (lst', r) = op lst
                      in (Inr r, set_data h1 n (AList.update data_key lst' node_data)))))"

definition make_child :: "heap \<Rightarrow> logger \<Rightarrow> string \<Rightarrow> (error + logger) \<times> heap" where
  "make_child h self vpath =
     (case traverse h self vpath True of
        (Inl e, h1) \<Rightarrow> (Inl e, h1)
      | (Inr n, h1) \<Rightarrow> (Inr (Logger n), h1))"

definition getitem :: "heap \<Rightarrow> logger \<Rightarrow> string \<Rightarrow> (error + val) \<times> heap" where
  "getitem h self vpath = do_data_op h self vpath list_ident False"

definition get :: "heap \<Rightarrow> logger \<Rightarrow> string \<Rightarrow> val \<Rightarrow> (error + val) \<times> heap" where
  "get h self vpath dflt =
     (if contains h self vpath
      then (case getitem h self vpath of
              (Inl e, h1) \<Rightarrow> (Inl e, h1)
            | (Inr node_or_list, h1) \<Rightarrow>
                (case node_or_list of
                   ListV l \<Rightarrow> (Inr node_or_list, h1)
                 | _ \<Rightarrow> (Inr dflt, h1)))
      else (Inr dflt, h))"

fun log_vpaths_vals :: "heap \<Rightarrow> logger \<Rightarrow> (string \<times> val) list \<Rightarrow> (error + unit) \<times> heap" where
  "log_vpaths_vals h self [] = (Inr (), h)"
| "log_vpaths_vals h self ((vpath, v) # rest) =
     (case do_data_op h self vpath (if is_iterable v then list_extend v else list_append v) True of
        (Inl e, h1) \<Rightarrow> (Inl e, h1)
      | (Inr r, h1) \<Rightarrow> log_vpaths_vals h1 self rest)"

text \<open>
  \<open>log(*args)\<close>. One argument is the mapping whose \<open>items()\<close> are logged; two arguments
  are a path and a value, logged as the mapping \<open>{args[0]: args[1]}\<close>. An argument of
  another kind fails where Python does: a value without \<open>items\<close> or \<open>rsplit\<close> with an
  \<open>AttributeError\<close>, an unhashable path with a \<open>TypeError\<close>.
\<close>

definition log :: "heap \<Rightarrow> logger \<Rightarrow> val list \<Rightarrow> (error + unit) \<times> heap" where
  "log h self args =
     (let len = length args
      in if 1 \<le> len \<and> len \<le> 2
         then (if len = 1
               then (case args ! 0 of
                       DictV d \<Rightarrow> log_vpaths_vals h self d
                     | _ \<Rightarrow> (Inl (AttributeError ''items''), h))
               else (case args ! 0 of
                       StrV vpath \<Rightarrow> log_vpaths_vals h self [(vpath, args ! 1)]
                     | ListV vs \<Rightarrow> (Inl (TypeError ''unhashable type''), h)
                     | DictV d \<Rightarrow> (Inl (TypeError ''unhashable type''), h)
                     | _ \<Rightarrow> (Inl (AttributeError ''rsplit''), h)))
         else (Inl (TypeError ''Method has to be called with either one or two arguments.''), h))"

definition clear :: "nat \<Rightarrow> heap \<Rightarrow> logger \<Rightarrow> heap option" where
  "clear n h self = node_clear n h (root self)"

definition as_dict :: "nat \<Rightarrow> heap \<Rightarrow> logger \<Rightarrow> (string \<times> val) list option" where
  "as_dict n h self = node_parse n h (root self)"

section \<open>Well-formed stores\<close>

text \<open>
  The stores that \<open>Logger()\<close>, \<open>make_child\<close>, \<open>log\<close> and \<open>clear\<close> build are forests:
  at every allocated node the keys of each dictionary are distinct, a child is an
  allocated node made after its parent, and no node is the child of two nodes or of one
  node under two keys.
\<close>

definition heap_ok :: "heap \<Rightarrow> bool" where
  "heap_ok h =
     (\<forall>a. a < next_addr h \<longrightarrow>
        distinct (map fst (data (nodes h a))) \<and>
        distinct (map fst (children (nodes h a))) \<and>
        (\<forall>k c. (k, c) \<in> set (children (nodes h a)) \<longrightarrow>
           a < c \<and> c < next_addr h \<and>
           (\<forall>b k'. b < next_addr h \<longrightarrow> (k', c) \<in> set (children (nodes h b)) \<longrightarrow>
              b = a \<and> k' = k)))"

text \<open>
  Two stores have the same shape when they have the same allocated addresses and every
  node has the same children. A node is in the subtree of \<open>a\<close> when some path of keys
  leads from \<open>a\<close> to it.
\<close>

definition same_shape :: "heap \<Rightarrow> heap \<Rightarrow> bool" where
  "same_shape h h' =
     (next_addr h' = next_addr h \<and> (\<forall>b. children (nodes h' b) = children (nodes h b)))"

definition in_subtree :: "heap \<Rightarrow> addr \<Rightarrow> addr \<Rightarrow> bool" where
  "in_subtree h a b = (\<exists>p. descend h a p = Some b)"

text \<open>
  \<open>cleared h h' S\<close>: the store \<open>h'\<close> is \<open>h\<close> with the data of the nodes in \<open>S\<close> emptied
  and nothing else changed.
\<close>

definition cleared :: "heap \<Rightarrow> heap \<Rightarrow> (addr \<Rightarrow> bool) \<Rightarrow> bool" where
  "cleared h h' S =
     (same_shape h h' \<and> (\<forall>b. data (nodes h' b) = (if S b then [] else data (nodes h b))))"

text \<open>
  What \<open>log(path, value)\<close> adds to the list of \<open>path\<close>: the elements of an iterable
  value, and the value itself otherwise. \<open>stored_list\<close> is the list that the direct read
  \<open>logger[path]\<close> finds, and the empty list when the read raises.
\<close>

definition logged_items :: "val \<Rightarrow> val list" where
  "logged_items v = (if is_iterable v then iter_items v else [v])"

definition stored_list :: "heap \<Rightarrow> logger \<Rightarrow> string \<Rightarrow> val list" where
  "stored_list h self vpath =
     (case fst (getitem h self vpath) of Inr (ListV l) \<Rightarrow> l | _ \<Rightarrow> [])"

text \<open>
  The keys that \<open>_traverse\<close> walks for a directory path: none for the empty path, which
  is the root itself, and the segments of the path otherwise.
\<close>

definition dir_keys :: "string \<Rightarrow> string list" where
  "dir_keys dir_path = (if dir_path = [] then [] else str_split (CHR ''/'') dir_path)"

section \<open>The structure implied by logged paths\<close>

text \<open>
  A run of \<open>log(path, value)\<close> calls, one after the other. \<open>log\<close> with a mapping does
  the same for the items of the mapping.
\<close>

fun log_each :: "heap \<Rightarrow> logger \<Rightarrow> (string \<times> val) list \<Rightarrow> heap" where
  "log_each h self [] = h"
| "log_each h self ((vpath, v) # calls) =
     log_each (snd (log h self [StrV vpath, v])) self calls"

text \<open>The values logged under a path by a run of calls, in logging order.\<close>

definition logged_at :: "string \<Rightarrow> (string \<times> val) list \<Rightarrow> val list" where
  "logged_at vpath calls =
     concat (map (\<lambda>pv. if fst pv = vpath then logged_items (snd pv) else []) calls)"

text \<open>
  The entry of a nested dictionary at a list of keys: the dictionary itself for no key,
  and for the keys \<open>k # ks\<close> the entry at \<open>ks\<close> of the dictionary bound to \<open>k\<close>.
\<close>

fun dict_lookup :: "(string \<times> val) list \<Rightarrow> string list \<Rightarrow> val option" where
  "dict_lookup d [] = Some (DictV d)"
| "dict_lookup d [k] = map_of d k"
| "dict_lookup d (k # k' # ks) =
     (case map_of d k of
        Some (DictV d') \<Rightarrow> dict_lookup d' (k' # ks)
      | _ \<Rightarrow> None)"

text \<open>
  The node and the data key that \<open>_do_data_op\<close> addresses for a path: the keys of the
  directory part and the last component.
\<close>

definition vdir :: "string \<Rightarrow> string list" where
  "vdir vpath = dir_keys (fst (rsplit_vpath vpath))"

definition vkey :: "string \<Rightarrow> string" where
  "vkey vpath = snd (rsplit_vpath vpath)"

text \<open>
  A plain path is any path but \<open>/key\<close>, a single separator in front of a key. A run of
  calls is collision free when the segments of no logged path are the beginning of the
  segments of another: no path names both a list and a branch.
\<close>

definition plain_vpath :: "string \<Rightarrow> bool" where
  "plain_vpath vpath = (CHR ''/'' \<in> set vpath \<longrightarrow> fst (rsplit_vpath vpath) \<noteq> [])"

definition collision_free :: "(string \<times> val) list \<Rightarrow> bool" where
  "collision_free calls =
     (\<forall>p \<in> fst ` set calls. \<forall>q \<in> fst ` set calls.
        \<not> strict_prefix (str_split (CHR ''/'') p) (str_split (CHR ''/'') q))"

text \<open>\<open>sep.join(parts)\<close>, the inverse of \<open>split\<close>.\<close>

fun str_join :: "char \<Rightarrow> string list \<Rightarrow> string" where
  "str_join sep [] = []"
| "str_join sep [s] = s"
| "str_join sep (s # t # ss) = s @ sep # str_join sep (t # ss)"

text \<open>
  What holds of the tree below \<open>r\<close> after a run of calls on a new logger: every data
  entry is the list logged under one path of the run, every path of the run has its
  entry, and every node other than \<open>r\<close> lies on the directory of a logged path.
\<close>

definition logs_inv :: "heap \<Rightarrow> addr \<Rightarrow> (string \<times> val) list \<Rightarrow> bool" where
  "logs_inv h r calls =
     ((\<forall>ks n k l. descend h r ks = Some n \<longrightarrow> map_of (data (nodes h n)) k = Some l \<longrightarrow>
          (\<exists>p \<in> fst ` set calls. vdir p = ks \<and> vkey p = k \<and> l = logged_at p calls))
      \<and> (\<forall>p \<in> fst ` set calls. \<exists>n. descend h r (vdir p) = Some n
            \<and> map_of (data (nodes h n)) (vkey p) = Some (logged_at p calls))
      \<and> (\<forall>ks n. ks \<noteq> [] \<longrightarrow> descend h r ks = Some n \<longrightarrow>
            (\<exists>p \<in> fst ` set calls. prefix ks (vdir p))))"

text \<open>The store and the logger after \<open>logger = Logger()\<close> in an empty store.\<close>

definition store0 :: heap where
  "store0 = snd (new_logger empty_heap)"

definition logger0 :: logger where
  "logger0 = fst (new_logger empty_heap)"

text \<open>
  A parent with a child logger at \<open>a/b\<close>: the store after
  \<open>child = logger.make_child("a/b")\<close>,
  \<open>logger.log({"v": 1, "a/w": 2, "a/c/x": 3})\<close> and \<open>child.log({"y": 4, "d/z": 5})\<close>.
\<close>

definition child_ab :: logger where
  "child_ab = Logger 2"

definition store_ab :: heap where
  "store_ab =
     snd (log
       (snd (log (snd (make_child store0 logger0 ''a/b'')) logger0
          [DictV [(''v'', IntV 1), (''a/w'', IntV 2), (''a/c/x'', IntV 3)]]))
       child_ab [DictV [(''y'', IntV 4), (''d/z'', IntV 5)]])"

section \<open>Path splitting\<close>

lemma split_join:
  assumes "sep \<in> set s"
  shows "takeWhile (\<lambda>c. c \<noteq> sep) s @ sep # tl (dropWhile (\<lambda>c. c \<noteq> sep) s) = s"
proof -
  have ne: "dropWhile (\<lambda>c. c \<noteq> sep) s \<noteq> []"
    using assms by (simp add: dropWhile_eq_Nil_conv)
  then have "hd (dropWhile (\<lambda>c. c \<noteq> sep) s) = sep"
    using hd_dropWhile[of "\<lambda>c. c \<noteq> sep" s] by simp
  with ne have "dropWhile (\<lambda>c. c \<noteq> sep) s = sep # tl (dropWhile (\<lambda>c. c \<noteq> sep) s)"
    by (cases "dropWhile (\<lambda>c. c \<noteq> sep) s") auto
  then show ?thesis
    using takeWhile_dropWhile_id[of "\<lambda>c. c \<noteq> sep" s] by simp
qed

lemma rsplit_join:
  assumes "sep \<in> set s"
  shows "rev (tl (dropWhile (\<lambda>c. c \<noteq> sep) (rev s))) @ sep # rev (takeWhile (\<lambda>c. c \<noteq> sep) (rev s)) = s"
proof -
  have "sep \<in> set (rev s)" using assms by simp
  from split_join[OF this]
  have "rev (takeWhile (\<lambda>c. c \<noteq> sep) (rev s) @ sep # tl (dropWhile (\<lambda>c. c \<noteq> sep) (rev s))) = rev (rev s)"
    by simp
  then show ?thesis by simp
qed

lemma takeWhile_no_sep: "sep \<notin> set (takeWhile (\<lambda>c. c \<noteq> sep) s)"
  by (induction s) auto

text \<open>
  Claim C8. A path without a separator splits into itself and the empty string
  (\<open>_split_vpath\<close>) or the empty string and itself (\<open>_rsplit_vpath\<close>); for a path with
  a separator, the two components joined by one \<open>/\<close> are the path again, the cut being
  at the first separator for \<open>_split_vpath\<close> and at the last for \<open>_rsplit_vpath\<close>.
  Both functions return a pair for every input.
\<close>

theorem split_vpath_lossless:
  "(CHR ''/'' \<notin> set p \<longrightarrow> split_vpath p = (p, []) \<and> rsplit_vpath p = ([], p)) \<and>
   (CHR ''/'' \<in> set p \<longrightarrow>
      fst (split_vpath p) @ ''/'' @ snd (split_vpath p) = p \<and>
      fst (rsplit_vpath p) @ ''/'' @ snd (rsplit_vpath p) = p \<and>
      CHR ''/'' \<notin> set (fst (split_vpath p)) \<and>
      CHR ''/'' \<notin> set (snd (rsplit_vpath p)))"
  by (simp add: split_vpath_def rsplit_vpath_def str_split1_def str_rsplit1_def
      split_join rsplit_join takeWhile_no_sep)

theorem split_vpath_lossless_witness:
  "split_vpath ''foo'' = (''foo'', []) \<and> rsplit_vpath ''foo'' = ([], ''foo'') \<and>
   split_vpath [] = ([], []) \<and> rsplit_vpath [] = ([], []) \<and>
   split_vpath ''foo/bar/baz'' = (''foo'', ''bar/baz'') \<and>
   rsplit_vpath ''foo/bar/baz'' = (''foo/bar'', ''baz'') \<and>
   fst (split_vpath ''foo/bar/baz'') @ ''/'' @ snd (split_vpath ''foo/bar/baz'') = ''foo/bar/baz'' \<and>
   fst (rsplit_vpath ''foo/bar/baz'') @ ''/'' @ snd (rsplit_vpath ''foo/bar/baz'') = ''foo/bar/baz''"
  using split_vpath_lossless[of "''foo''"] split_vpath_lossless[of "[]"]
    split_vpath_lossless[of "''foo/bar/baz''"]
  by (simp add: split_vpath_def rsplit_vpath_def str_split1_def str_rsplit1_def)

section \<open>Scenarios on a new logger\<close>

lemmas eval_defs = key_in_def children_setdefault_def new_logger_def new_lognode_def empty_heap_def log_def traverse_def contains_def
  do_data_op_def rsplit_vpath_def str_rsplit1_def set_data_def set_children_def getitem_def get_def
  list_extend_def list_append_def list_ident_def make_child_def as_dict_def clear_def Let_def

text \<open>
  Claim C1 says that \<open>_traverse(p, create=False)\<close> never changes the tree. The code walks
  with \<open>setdefault\<close> whether or not \<open>create\<close> is set, and \<open>__contains__\<close> lets a path pass
  whose last segment is a data key only. After \<open>log("v", 5)\<close> the root has the data key
  \<open>v\<close> and no child; \<open>_traverse("v", create=False)\<close> then returns a new node and leaves it
  in the root's \<open>children\<close>. The read \<open>logger["v/x"]\<close> does the same before it raises.
\<close>

theorem traverse_without_create_inserts_node:
  "(let (L, h0) = new_logger empty_heap;
        (r1, h1) = log h0 L [StrV ''v'', IntV 5];
        (r2, h2) = traverse h1 L ''v'' False
    in r1 = Inr () \<and> children (nodes h1 (root L)) = []
       \<and> r2 = Inr 1 \<and> children (nodes h2 (root L)) = [(''v'', 1)]
       \<and> getitem h1 L ''v/x'' = (Inl (KeyError ''x''), h2))"
  by (simp add: eval_defs)

text \<open>
  Claim C2 says that \<open>get\<close> never fails and returns the default for a path that names a
  sub-branch. After \<open>make_child("child")\<close> the path \<open>child\<close> is contained, so \<open>get\<close> reads
  \<open>self["child"]\<close>, which looks \<open>child\<close> up in the root's \<open>data\<close> and raises \<open>KeyError\<close>.
\<close>

theorem get_on_branch_raises:
  "(let (L, h0) = new_logger empty_heap;
        (c, h1) = make_child h0 L ''child''
    in contains h1 L ''child''
       \<and> getitem h1 L ''child'' = (Inl (KeyError ''child''), h1)
       \<and> get h1 L ''child'' NoneV = (Inl (KeyError ''child''), h1))"
  by (simp add: eval_defs)

text \<open>
  Claim C4. A child logger is an alias into the parent's tree. In any store, on a new
  logger, after \<open>child = logger.make_child("a/b")\<close>: \<open>child.log("x", 1)\<close> makes
  \<open>logger.get("a/b/x")\<close> the list \<open>[1]\<close>, and \<open>logger.log("a/b/y", 2)\<close> makes
  \<open>child.get("y")\<close> the list \<open>[2]\<close>; each value stays visible through both loggers.
\<close>

theorem child_logger_aliases_parent:
  "(let (L, h0) = new_logger h;
        (c, h1) = make_child h0 L ''a/b''
    in \<exists>child. c = Inr child \<and>
         (let (r2, h2) = log h1 child [StrV ''x'', IntV 1];
              (r3, h3) = log h2 L [StrV ''a/b/y'', IntV 2]
          in r2 = Inr () \<and> get h2 L ''a/b/x'' NoneV = (Inr (ListV [IntV 1]), h2)
             \<and> r3 = Inr () \<and> get h3 child ''y'' NoneV = (Inr (ListV [IntV 2]), h3)
             \<and> get h3 child ''x'' NoneV = (Inr (ListV [IntV 1]), h3)
             \<and> get h3 L ''a/b/y'' NoneV = (Inr (ListV [IntV 2]), h3)))"
  by (simp add: eval_defs)

section \<open>The store invariant\<close>

lemma heap_okI:
  assumes "\<And>a. a < next_addr h \<Longrightarrow> distinct (map fst (data (nodes h a)))"
    and "\<And>a. a < next_addr h \<Longrightarrow> distinct (map fst (children (nodes h a)))"
    and "\<And>a k c. a < next_addr h \<Longrightarrow> (k, c) \<in> set (children (nodes h a)) \<Longrightarrow> a < c \<and> c < next_addr h"
    and "\<And>a k c b k'. a < next_addr h \<Longrightarrow> (k, c) \<in> set (children (nodes h a)) \<Longrightarrow>
           b < next_addr h \<Longrightarrow> (k', c) \<in> set (children (nodes h b)) \<Longrightarrow> b = a \<and> k' = k"
  shows "heap_ok h"
  unfolding heap_ok_def using assms by blast

lemma heap_ok_distinct_data: "heap_ok h \<Longrightarrow> a < next_addr h \<Longrightarrow> distinct (map fst (data (nodes h a)))"
  unfolding heap_ok_def by blast

lemma heap_ok_distinct_children: "heap_ok h \<Longrightarrow> a < next_addr h \<Longrightarrow> distinct (map fst (children (nodes h a)))"
  unfolding heap_ok_def by blast

lemma heap_ok_edge:
  "heap_ok h \<Longrightarrow> a < next_addr h \<Longrightarrow> (k, c) \<in> set (children (nodes h a)) \<Longrightarrow> a < c \<and> c < next_addr h"
  unfolding heap_ok_def by blast

lemma heap_ok_unique:
  "heap_ok h \<Longrightarrow> a < next_addr h \<Longrightarrow> (k, c) \<in> set (children (nodes h a)) \<Longrightarrow>
   b < next_addr h \<Longrightarrow> (k', c) \<in> set (children (nodes h b)) \<Longrightarrow> b = a \<and> k' = k"
  unfolding heap_ok_def by blast

lemma heap_ok_child:
  assumes "heap_ok h" "a < next_addr h" "map_of (children (nodes h a)) k = Some c"
  shows "a < c" "c < next_addr h"
  using heap_ok_edge[OF assms(1,2) map_of_SomeD[OF assms(3)]] by simp_all

lemma children_setdefault_present:
  "map_of (children (nodes h a)) key = Some c \<Longrightarrow> children_setdefault h a key = (c, h)"
  by (simp add: children_setdefault_def)

lemma children_setdefault_absent:
  assumes "map_of (children (nodes h a)) key = None" "a < next_addr h"
    and "children_setdefault h a key = (c, h')"
  shows "c = next_addr h" "next_addr h' = Suc (next_addr h)"
    "children (nodes h' b) =
      (if b = a then children (nodes h a) @ [(key, c)] else if b = c then [] else children (nodes h b))"
    "data (nodes h' b) = (if b = c then [] else data (nodes h b))"
  using assms by (auto simp: children_setdefault_def new_lognode_def set_children_def)


lemma children_setdefault_ok:
  assumes ok: "heap_ok h" and a: "a < next_addr h"
    and step: "children_setdefault h a key = (c, h')"
  shows "heap_ok h'"
proof (cases "map_of (children (nodes h a)) key")
  case (Some c')
  then show ?thesis using ok step by (simp add: children_setdefault_present)
next
  case None
  note abs = children_setdefault_absent[OF None a step]
  have c: "c = next_addr h" and nx: "next_addr h' = Suc (next_addr h)" by (rule abs)+
  have notin: "key \<notin> fst ` set (children (nodes h a))"
    using None by (simp add: map_of_eq_None_iff)
  have ch: "\<And>b. children (nodes h' b) =
      (if b = a then children (nodes h a) @ [(key, c)] else if b = c then [] else children (nodes h b))"
    by (rule abs)
  have da: "\<And>b. data (nodes h' b) = (if b = c then [] else data (nodes h b))"
    by (rule abs)
  have edge': "\<And>b k x. b < next_addr h' \<Longrightarrow> (k, x) \<in> set (children (nodes h' b)) \<Longrightarrow>
      (b < next_addr h \<and> (k, x) \<in> set (children (nodes h b))) \<or> (b = a \<and> k = key \<and> x = c)"
    using a c nx by (auto simp: ch less_Suc_eq split: if_splits)
  show ?thesis
  proof (rule heap_okI)
    fix b assume b: "b < next_addr h'"
    show "distinct (map fst (data (nodes h' b)))"
      using heap_ok_distinct_data[OF ok, of b] b c nx by (auto simp: da less_Suc_eq)
    show "distinct (map fst (children (nodes h' b)))"
      using heap_ok_distinct_children[OF ok, of b] a b c nx notin by (auto simp: ch less_Suc_eq)
  next
    fix b k x assume b: "b < next_addr h'" and e: "(k, x) \<in> set (children (nodes h' b))"
    from edge'[OF b e] show "b < x \<and> x < next_addr h'"
      using heap_ok_edge[OF ok, of b k x] a c nx by auto
  next
    fix b k x b' k' assume b: "b < next_addr h'" and e: "(k, x) \<in> set (children (nodes h' b))"
      and b': "b' < next_addr h'" and e': "(k', x) \<in> set (children (nodes h' b'))"
    from edge'[OF b e] edge'[OF b' e'] show "b' = b \<and> k' = k"
      using heap_ok_unique[OF ok, of b k x b' k'] heap_ok_edge[OF ok, of b k x]
        heap_ok_edge[OF ok, of b' k' x] c by auto
  qed
qed

lemma children_setdefault_bounds:
  assumes ok: "heap_ok h" and a: "a < next_addr h"
    and step: "children_setdefault h a key = (c, h')"
  shows "a < c" "c < next_addr h'" "next_addr h \<le> next_addr h'"
proof -
  have "a < c \<and> c < next_addr h' \<and> next_addr h \<le> next_addr h'"
  proof (cases "map_of (children (nodes h a)) key")
    case (Some c')
    then show ?thesis using heap_ok_child[OF ok a Some] step
      by (simp add: children_setdefault_present)
  next
    case None
    then show ?thesis using children_setdefault_absent(1,2)[OF None a step] a by simp
  qed
  then show "a < c" "c < next_addr h'" "next_addr h \<le> next_addr h'" by simp_all
qed

lemma children_setdefault_lookup:
  assumes a: "a < next_addr h" and step: "children_setdefault h a key = (c, h')"
  shows "map_of (children (nodes h' a)) key = Some c"
proof (cases "map_of (children (nodes h a)) key")
  case (Some c')
  then show ?thesis using step by (simp add: children_setdefault_present)
next
  case None
  then show ?thesis using children_setdefault_absent(3)[OF None a step, of a]
    by (simp add: map_add_def)
qed

lemma children_setdefault_data:
  assumes a: "a < next_addr h" and step: "children_setdefault h a key = (c, h')"
    and b: "b < next_addr h"
  shows "data (nodes h' b) = data (nodes h b)"
proof (cases "map_of (children (nodes h a)) key")
  case (Some c')
  then show ?thesis using step by (simp add: children_setdefault_present)
next
  case None
  then show ?thesis using children_setdefault_absent(1,4)[OF None a step] b by simp
qed

lemma children_setdefault_mono:
  assumes a: "a < next_addr h" and step: "children_setdefault h a key = (c, h')"
    and b: "b < next_addr h" and x: "map_of (children (nodes h b)) k = Some x"
  shows "map_of (children (nodes h' b)) k = Some x"
proof (cases "map_of (children (nodes h a)) key")
  case (Some c')
  then show ?thesis using step x by (simp add: children_setdefault_present)
next
  case None
  then show ?thesis using children_setdefault_absent(1,3)[OF None a step] b x by auto
qed

lemma children_setdefault_new:
  assumes a: "a < next_addr h" and step: "children_setdefault h a key = (c, h')"
    and new: "map_of (children (nodes h a)) key = None"
  shows "c = next_addr h" "data (nodes h' c) = []" "children (nodes h' c) = []"
  using children_setdefault_absent(1,3,4)[OF new a step] a by auto

lemma setdefault_walk_ok:
  assumes "heap_ok h" "a < next_addr h" "setdefault_walk h a ks = (n, h1)"
  shows "heap_ok h1 \<and> n < next_addr h1 \<and> next_addr h \<le> next_addr h1 \<and> a \<le> n"
  using assms
proof (induction ks arbitrary: h a)
  case Nil
  then show ?case by simp
next
  case (Cons key ks)
  obtain c h' where step: "children_setdefault h a key = (c, h')" by fastforce
  note b = children_setdefault_bounds[OF Cons.prems(1,2) step]
  have ok': "heap_ok h'" by (rule children_setdefault_ok[OF Cons.prems(1,2) step])
  have "setdefault_walk h' c ks = (n, h1)" using Cons.prems(3) step by simp
  from Cons.IH[OF ok' b(2) this] b show ?case by simp
qed

lemma setdefault_walk_data:
  assumes "heap_ok h" "a < next_addr h" "setdefault_walk h a ks = (n, h1)" "b < next_addr h"
  shows "data (nodes h1 b) = data (nodes h b)"
  using assms
proof (induction ks arbitrary: h a)
  case Nil
  then show ?case by simp
next
  case (Cons key ks)
  obtain c h' where step: "children_setdefault h a key = (c, h')" by fastforce
  note bd = children_setdefault_bounds[OF Cons.prems(1,2) step]
  have ok': "heap_ok h'" by (rule children_setdefault_ok[OF Cons.prems(1,2) step])
  have w: "setdefault_walk h' c ks = (n, h1)" using Cons.prems(3) step by simp
  have "b < next_addr h'" using Cons.prems(4) bd(3) by simp
  from Cons.IH[OF ok' bd(2) w this]
  show ?case using children_setdefault_data[OF Cons.prems(2) step Cons.prems(4)] by simp
qed

lemma setdefault_walk_mono:
  assumes "heap_ok h" "a < next_addr h" "setdefault_walk h a ks = (n, h1)" "b < next_addr h"
    and "map_of (children (nodes h b)) k = Some x"
  shows "map_of (children (nodes h1 b)) k = Some x"
  using assms
proof (induction ks arbitrary: h a)
  case Nil
  then show ?case by simp
next
  case (Cons key ks)
  obtain c h' where step: "children_setdefault h a key = (c, h')" by fastforce
  note bd = children_setdefault_bounds[OF Cons.prems(1,2) step]
  have ok': "heap_ok h'" by (rule children_setdefault_ok[OF Cons.prems(1,2) step])
  have w: "setdefault_walk h' c ks = (n, h1)" using Cons.prems(3) step by simp
  have b': "b < next_addr h'" using Cons.prems(4) bd(3) by simp
  have "map_of (children (nodes h' b)) k = Some x"
    by (rule children_setdefault_mono[OF Cons.prems(2) step Cons.prems(4,5)])
  from Cons.IH[OF ok' bd(2) w b' this] show ?case .
qed

lemma setdefault_walk_descend:
  assumes "heap_ok h" "a < next_addr h" "setdefault_walk h a ks = (n, h1)"
  shows "descend h1 a ks = Some n"
  using assms
proof (induction ks arbitrary: h a)
  case Nil
  then show ?case by simp
next
  case (Cons key ks)
  obtain c h' where step: "children_setdefault h a key = (c, h')" by fastforce
  note bd = children_setdefault_bounds[OF Cons.prems(1,2) step]
  have ok': "heap_ok h'" by (rule children_setdefault_ok[OF Cons.prems(1,2) step])
  have w: "setdefault_walk h' c ks = (n, h1)" using Cons.prems(3) step by simp
  have a': "a < next_addr h'" using Cons.prems(2) bd(3) by simp
  have "map_of (children (nodes h1 a)) key = Some c"
    by (rule setdefault_walk_mono[OF ok' bd(2) w a' children_setdefault_lookup[OF Cons.prems(2) step]])
  then show ?case using Cons.IH[OF ok' bd(2) w] by simp
qed

lemma setdefault_walk_existing:
  "descend h a ks = Some m \<Longrightarrow> setdefault_walk h a ks = (m, h)"
proof (induction ks arbitrary: a)
  case Nil
  then show ?case by simp
next
  case (Cons key ks)
  then show ?case
    by (auto simp: children_setdefault_present split: option.splits)
qed

lemma setdefault_walk_idem:
  assumes "heap_ok h" "a < next_addr h" "setdefault_walk h a ks = (n, h1)"
  shows "setdefault_walk h1 a ks = (n, h1)"
  by (rule setdefault_walk_existing[OF setdefault_walk_descend[OF assms]])

section \<open>Traversal with creation\<close>

lemma heap_ok_empty: "heap_ok empty_heap"
  by (simp add: heap_ok_def empty_heap_def)

lemma new_lognode_ok:
  assumes ok: "heap_ok h"
  shows "heap_ok (snd (new_lognode h))"
proof -
  let ?h = "snd (new_lognode h)"
  have nx: "next_addr ?h = Suc (next_addr h)" by (simp add: new_lognode_def)
  have ch: "\<And>b. children (nodes ?h b) = (if b = next_addr h then [] else children (nodes h b))"
    by (simp add: new_lognode_def)
  have da: "\<And>b. data (nodes ?h b) = (if b = next_addr h then [] else data (nodes h b))"
    by (simp add: new_lognode_def)
  have edge': "\<And>b k x. b < next_addr ?h \<Longrightarrow> (k, x) \<in> set (children (nodes ?h b)) \<Longrightarrow>
      b < next_addr h \<and> (k, x) \<in> set (children (nodes h b))"
    using nx by (auto simp: ch less_Suc_eq split: if_splits)
  show ?thesis
  proof (rule heap_okI)
    fix b assume b: "b < next_addr ?h"
    show "distinct (map fst (data (nodes ?h b)))"
      using heap_ok_distinct_data[OF ok, of b] b nx by (auto simp: da less_Suc_eq)
    show "distinct (map fst (children (nodes ?h b)))"
      using heap_ok_distinct_children[OF ok, of b] b nx by (auto simp: ch less_Suc_eq)
  next
    fix b k x assume b: "b < next_addr ?h" and e: "(k, x) \<in> set (children (nodes ?h b))"
    from edge'[OF b e] show "b < x \<and> x < next_addr ?h"
      using heap_ok_edge[OF ok, of b k x] nx by auto
  next
    fix b k x b' k' assume b: "b < next_addr ?h" and e: "(k, x) \<in> set (children (nodes ?h b))"
      and b': "b' < next_addr ?h" and e': "(k', x) \<in> set (children (nodes ?h b'))"
    from edge'[OF b e] edge'[OF b' e'] show "b' = b \<and> k' = k"
      using heap_ok_unique[OF ok, of b k x b' k'] by auto
  qed
qed

lemma new_logger_ok:
  assumes "heap_ok h"
  shows "heap_ok (snd (new_logger h))" "root (fst (new_logger h)) < next_addr (snd (new_logger h))"
    "root (fst (new_logger h)) = next_addr h"
    "data (nodes (snd (new_logger h)) (root (fst (new_logger h)))) = []"
    "children (nodes (snd (new_logger h)) (root (fst (new_logger h)))) = []"
  using new_lognode_ok[OF assms] by (simp_all add: new_logger_def new_lognode_def)

text \<open>
  Claim C7. Creation is idempotent. On a well-formed store, \<open>_traverse(p, create=True)\<close>
  returns a node, and the same call on the store it leaves returns the same node and
  leaves that store as it is. The first call overwrites nothing: every node that was
  there keeps its data and every child it had.
\<close>

theorem traverse_create_idempotent:
  assumes ok: "heap_ok h" and r: "root self < next_addr h"
  shows "\<exists>n h1. traverse h self vpath True = (Inr n, h1)
           \<and> traverse h1 self vpath True = (Inr n, h1)
           \<and> heap_ok h1 \<and> n < next_addr h1
           \<and> (\<forall>b. b < next_addr h \<longrightarrow>
                 data (nodes h1 b) = data (nodes h b)
                 \<and> (\<forall>k x. map_of (children (nodes h b)) k = Some x
                       \<longrightarrow> map_of (children (nodes h1 b)) k = Some x))"
proof (cases "vpath = []")
  case True
  then show ?thesis using ok r by (simp add: traverse_def)
next
  case False
  obtain n h1 where w: "setdefault_walk h (root self) (str_split (CHR ''/'') vpath) = (n, h1)"
    by fastforce
  have t1: "traverse h self vpath True = (Inr n, h1)"
    using False w by (simp add: traverse_def)
  have t2: "traverse h1 self vpath True = (Inr n, h1)"
    using False setdefault_walk_idem[OF ok r w] by (simp add: traverse_def)
  show ?thesis
    using t1 t2 setdefault_walk_ok[OF ok r w] setdefault_walk_data[OF ok r w]
      setdefault_walk_mono[OF ok r w]
    by blast
qed

theorem traverse_create_idempotent_witness:
  "\<exists>n h1. traverse (snd (new_logger empty_heap)) (fst (new_logger empty_heap)) ''a/b'' True = (Inr n, h1)
     \<and> n = 2
     \<and> traverse h1 (fst (new_logger empty_heap)) ''a/b'' True = (Inr n, h1)"
proof -
  from traverse_create_idempotent[OF new_logger_ok(1,2)[OF heap_ok_empty], of "''a/b''"]
  obtain n h1 where
    a: "traverse (snd (new_logger empty_heap)) (fst (new_logger empty_heap)) ''a/b'' True = (Inr n, h1)"
    and b: "traverse h1 (fst (new_logger empty_heap)) ''a/b'' True = (Inr n, h1)"
    by blast
  have "fst (traverse (snd (new_logger empty_heap)) (fst (new_logger empty_heap)) ''a/b'' True) = Inr 2"
    by (simp add: eval_defs)
  with a have "n = 2" by simp
  with a b show ?thesis by blast
qed

section \<open>Logging\<close>

lemma traverse_create_returns:
  "\<exists>n h1. traverse h self vpath True = (Inr n, h1)"
  by (simp add: traverse_def split: prod.splits)

lemma do_data_op_create_returns:
  "\<exists>r h1. do_data_op h self vpath op True = (Inr r, h1)"
proof -
  obtain dir_path data_key where s: "rsplit_vpath vpath = (dir_path, data_key)" by fastforce
  obtain n h1 where t: "traverse h self dir_path True = (Inr n, h1)"
    using traverse_create_returns by blast
  show ?thesis using s t by (simp add: do_data_op_def Let_def split: prod.splits)
qed

lemma log_vpaths_vals_returns: "fst (log_vpaths_vals h self m) = Inr ()"
proof (induction m arbitrary: h)
  case Nil
  then show ?case by simp
next
  case (Cons pv m)
  obtain vpath v where pv: "pv = (vpath, v)" by fastforce
  obtain r h1 where
    d: "do_data_op h self vpath (if is_iterable v then list_extend v else list_append v) True = (Inr r, h1)"
    using do_data_op_create_returns by blast
  show ?case using pv d Cons.IH[of h1] by simp
qed

text \<open>
  Claim C9. \<open>log\<close> with one argument, a mapping of paths to values, or with two, a path
  and a value, returns without an error. With no argument or with three or more it
  raises the \<open>TypeError\<close> of a wrong argument count and the store is as before.
\<close>

theorem log_argument_count:
  "fst (log h self [DictV m]) = Inr ()
   \<and> fst (log h self [StrV vpath, v]) = Inr ()
   \<and> (length args = 0 \<or> 3 \<le> length args \<longrightarrow>
        log h self args =
          (Inl (TypeError ''Method has to be called with either one or two arguments.''), h))"
  by (auto simp: log_def log_vpaths_vals_returns Let_def simp del: log_vpaths_vals.simps)

theorem log_argument_count_witness:
  "log (snd (new_logger empty_heap)) (fst (new_logger empty_heap)) [] =
     (Inl (TypeError ''Method has to be called with either one or two arguments.''),
      snd (new_logger empty_heap))
   \<and> log (snd (new_logger empty_heap)) (fst (new_logger empty_heap)) [IntV 1, IntV 2, IntV 3] =
     (Inl (TypeError ''Method has to be called with either one or two arguments.''),
      snd (new_logger empty_heap))
   \<and> fst (log (snd (new_logger empty_heap)) (fst (new_logger empty_heap)) [StrV ''v'', IntV 5]) = Inr ()
   \<and> fst (log (snd (new_logger empty_heap)) (fst (new_logger empty_heap))
        [DictV [(''a/v'', IntV 1), (''b/v'', ListV [IntV 2, IntV 3])]]) = Inr ()"
  using log_argument_count[of "snd (new_logger empty_heap)" "fst (new_logger empty_heap)"
      "[(''a/v'', IntV 1), (''b/v'', ListV [IntV 2, IntV 3])]" "''v''" "IntV 5" "[]"]
    log_argument_count[of "snd (new_logger empty_heap)" "fst (new_logger empty_heap)"
      "[]" "''v''" "IntV 5" "[IntV 1, IntV 2, IntV 3]"]
  by simp

section \<open>Structural export\<close>

lemma map_of_data_items:
  "map_of (map (\<lambda>kl. (fst kl, ListV (snd kl))) d) k = map_option ListV (map_of d k)"
  by (induction d) auto

lemma map_fst_data_items: "map fst (map (\<lambda>kl. (fst kl, ListV (snd kl))) d) = map fst d"
  by (induction d) auto

lemma parse_children_other:
  assumes "parse_children n h cs result = Some r" "map_of cs k = None"
  shows "map_of r k = map_of result k"
  using assms
proof (induction cs arbitrary: result)
  case Nil
  then show ?case by simp
next
  case (Cons kc cs)
  obtain key child where kc: "kc = (key, child)" by fastforce
  from Cons.prems(2) kc have ne: "key \<noteq> k" and rest: "map_of cs k = None"
    by (auto split: if_splits)
  from Cons.prems(1) kc obtain parsed where p: "node_parse n h child = Some parsed"
    and pc: "parse_children n h cs
      (if parsed \<noteq> [] then AList.update key (DictV parsed) result else result) = Some r"
    by (auto split: option.splits)
  from Cons.IH[OF pc rest] ne show ?case by (simp add: update_conv')
qed

lemma parse_children_child:
  assumes "parse_children n h cs result = Some r" "map_of cs k = Some c"
    "distinct (map fst cs)"
  shows "\<exists>pc. node_parse n h c = Some pc
           \<and> map_of r k = (if pc \<noteq> [] then Some (DictV pc) else map_of result k)"
  using assms
proof (induction cs arbitrary: result)
  case Nil
  then show ?case by simp
next
  case (Cons kc cs)
  obtain key child where kc: "kc = (key, child)" by fastforce
  from Cons.prems(1) kc obtain parsed where p: "node_parse n h child = Some parsed"
    and pc: "parse_children n h cs
      (if parsed \<noteq> [] then AList.update key (DictV parsed) result else result) = Some r"
    by (auto split: option.splits)
  show ?case
  proof (cases "key = k")
    case True
    then have c: "child = c" using Cons.prems(2) kc by simp
    have "map_of cs k = None"
      using Cons.prems(3) kc True by (simp add: map_of_eq_None_iff)
    from parse_children_other[OF pc this] p c True show ?thesis
      by (simp add: update_conv')
  next
    case False
    then have m: "map_of cs k = Some c" using Cons.prems(2) kc by simp
    have d: "distinct (map fst cs)" using Cons.prems(3) by simp
    have res: "map_of (if parsed \<noteq> [] then AList.update key (DictV parsed) result else result) k
        = map_of result k"
      using False by (simp add: update_conv')
    from Cons.IH[OF pc m d] show ?thesis unfolding res .
  qed
qed

lemma parse_children_distinct:
  assumes "parse_children n h cs result = Some r" "distinct (map fst result)"
  shows "distinct (map fst r)"
  using assms
proof (induction cs arbitrary: result)
  case Nil
  then show ?case by simp
next
  case (Cons kc cs)
  obtain key child where kc: "kc = (key, child)" by fastforce
  from Cons.prems(1) kc obtain parsed where
    pc: "parse_children n h cs
      (if parsed \<noteq> [] then AList.update key (DictV parsed) result else result) = Some r"
    by (auto split: option.splits)
  show ?case
    by (rule Cons.IH[OF pc]) (simp add: distinct_update Cons.prems(2))
qed

lemma parse_children_total:
  assumes "\<And>k c. (k, c) \<in> set cs \<Longrightarrow> \<exists>r. node_parse n h c = Some r"
  shows "\<exists>r. parse_children n h cs result = Some r"
  using assms
proof (induction cs arbitrary: result)
  case Nil
  then show ?case by simp
next
  case (Cons kc cs)
  obtain key child where kc: "kc = (key, child)" by fastforce
  obtain parsed where p: "node_parse n h child = Some parsed"
    using Cons.prems[of key child] kc by auto
  have "\<exists>r. parse_children n h cs
      (if parsed \<noteq> [] then AList.update key (DictV parsed) result else result) = Some r"
  proof (rule Cons.IH)
    fix k c assume "(k, c) \<in> set cs"
    then show "\<exists>r. node_parse n h c = Some r" using Cons.prems[of k c] by simp
  qed
  then show ?case using kc p by simp
qed

lemma node_parse_total:
  assumes ok: "heap_ok h"
  shows "a < next_addr h \<Longrightarrow> next_addr h - a \<le> n \<Longrightarrow> \<exists>r. node_parse n h a = Some r"
proof (induction n arbitrary: a)
  case 0
  then show ?case by simp
next
  case (Suc n)
  have "\<exists>r. parse_children n h (children (nodes h a))
      (map (\<lambda>kl. (fst kl, ListV (snd kl))) (data (nodes h a))) = Some r"
  proof (rule parse_children_total)
    fix k c assume e: "(k, c) \<in> set (children (nodes h a))"
    from heap_ok_edge[OF ok Suc.prems(1) e] have "a < c" "c < next_addr h" by simp_all
    then have "next_addr h - c \<le> n" using Suc.prems(2) by arith
    with \<open>c < next_addr h\<close> show "\<exists>r. node_parse n h c = Some r" by (rule Suc.IH)
  qed
  then show ?case by simp
qed

lemma parse_children_fuel:
  assumes "parse_children n h cs result = Some r"
    and "\<And>c r'. node_parse n h c = Some r' \<Longrightarrow> node_parse m h c = Some r'"
  shows "parse_children m h cs result = Some r"
  using assms(1)
proof (induction cs arbitrary: result)
  case Nil
  then show ?case by simp
next
  case (Cons kc cs)
  obtain key child where kc: "kc = (key, child)" by fastforce
  from Cons.prems(1) kc obtain parsed where p: "node_parse n h child = Some parsed"
    and pc: "parse_children n h cs
      (if parsed \<noteq> [] then AList.update key (DictV parsed) result else result) = Some r"
    by (auto split: option.splits)
  from Cons.IH[OF pc] assms(2)[OF p] kc show ?case by simp
qed

lemma node_parse_fuel:
  "node_parse n h a = Some r \<Longrightarrow> n \<le> m \<Longrightarrow> node_parse m h a = Some r"
proof (induction n arbitrary: m a r)
  case 0
  then show ?case by simp
next
  case (Suc n)
  then obtain m' where m: "m = Suc m'" "n \<le> m'" by (cases m) auto
  from Suc.prems(1) have pc: "parse_children n h (children (nodes h a))
      (map (\<lambda>kl. (fst kl, ListV (snd kl))) (data (nodes h a))) = Some r"
    by simp
  have "parse_children m' h (children (nodes h a))
      (map (\<lambda>kl. (fst kl, ListV (snd kl))) (data (nodes h a))) = Some r"
  proof (rule parse_children_fuel[OF pc])
    fix c r' assume "node_parse n h c = Some r'"
    then show "node_parse m' h c = Some r'" using m(2) by (rule Suc.IH)
  qed
  then show ?case using m(1) by simp
qed

section \<open>Operations keep the store well-formed\<close>

lemma set_data_simps:
  "next_addr (set_data h a d) = next_addr h"
  "children (nodes (set_data h a d) b) = children (nodes h b)"
  "data (nodes (set_data h a d) b) = (if b = a then d else data (nodes h b))"
  by (simp_all add: set_data_def)

lemma set_data_ok:
  assumes ok: "heap_ok h" and d: "distinct (map fst d)"
  shows "heap_ok (set_data h a d)"
proof (rule heap_okI)
  fix b assume b: "b < next_addr (set_data h a d)"
  show "distinct (map fst (data (nodes (set_data h a d) b)))"
    using heap_ok_distinct_data[OF ok, of b] b d by (simp add: set_data_simps)
  show "distinct (map fst (children (nodes (set_data h a d) b)))"
    using heap_ok_distinct_children[OF ok, of b] b by (simp add: set_data_simps)
next
  fix b k x assume "b < next_addr (set_data h a d)"
    and "(k, x) \<in> set (children (nodes (set_data h a d) b))"
  then show "b < x \<and> x < next_addr (set_data h a d)"
    using heap_ok_edge[OF ok, of b k x] by (simp add: set_data_simps)
next
  fix b k x b' k' assume "b < next_addr (set_data h a d)"
    and "(k, x) \<in> set (children (nodes (set_data h a d) b))"
    and "b' < next_addr (set_data h a d)"
    and "(k', x) \<in> set (children (nodes (set_data h a d) b'))"
  then show "b' = b \<and> k' = k"
    using heap_ok_unique[OF ok, of b k x b' k'] by (simp add: set_data_simps)
qed

lemma descend_set_data: "descend (set_data h a d) b ks = descend h b ks"
  by (induction ks arbitrary: b) (simp_all add: set_data_simps split: option.splits)

lemma traverse_ok:
  assumes ok: "heap_ok h" and r: "root self < next_addr h"
    and t: "traverse h self vpath create = (res, h1)"
  shows "heap_ok h1" "next_addr h \<le> next_addr h1" "\<And>n. res = Inr n \<Longrightarrow> n < next_addr h1"
proof -
  have "heap_ok h1 \<and> next_addr h \<le> next_addr h1 \<and> (\<forall>n. res = Inr n \<longrightarrow> n < next_addr h1)"
  proof (cases "vpath = [] \<or> (\<not> create \<and> \<not> contains h self vpath)")
    case True
    then show ?thesis using t ok r by (auto simp: traverse_def split: if_splits)
  next
    case False
    obtain n h' where w: "setdefault_walk h (root self) (str_split (CHR ''/'') vpath) = (n, h')"
      by fastforce
    from False t w have "res = Inr n" "h1 = h'" by (auto simp: traverse_def)
    then show ?thesis using setdefault_walk_ok[OF ok r w] by simp
  qed
  then show "heap_ok h1" "next_addr h \<le> next_addr h1" "\<And>n. res = Inr n \<Longrightarrow> n < next_addr h1"
    by simp_all
qed

lemma do_data_op_ok:
  assumes ok: "heap_ok h" and r: "root self < next_addr h"
    and d: "do_data_op h self vpath op create = (res, h1)"
  shows "heap_ok h1" "next_addr h \<le> next_addr h1"
proof -
  obtain dir_path data_key where s: "rsplit_vpath vpath = (dir_path, data_key)" by fastforce
  obtain tr h' where t: "traverse h self dir_path create = (tr, h')" by fastforce
  note tok = traverse_ok[OF ok r t]
  have "heap_ok h1 \<and> next_addr h \<le> next_addr h1"
  proof (cases tr)
    case (Inl e)
    then show ?thesis using d s t tok by (simp add: do_data_op_def)
  next
    case (Inr n)
    have dd: "distinct (map fst (data (nodes h' n)))"
      by (rule heap_ok_distinct_data[OF tok(1) tok(3)[OF Inr]])
    have upd: "\<And>l. heap_ok (set_data h' n (AList.update data_key l (data (nodes h' n))))"
      by (rule set_data_ok[OF tok(1)]) (simp add: distinct_update dd)
    show ?thesis using d s t Inr tok(1,2) upd
      by (auto simp: do_data_op_def Let_def set_data_simps split: option.splits prod.splits if_splits)
  qed
  then show "heap_ok h1" "next_addr h \<le> next_addr h1" by simp_all
qed

lemma log_vpaths_vals_ok:
  assumes "heap_ok h" "root self < next_addr h" "log_vpaths_vals h self m = (res, h1)"
  shows "heap_ok h1 \<and> next_addr h \<le> next_addr h1"
  using assms
proof (induction m arbitrary: h)
  case Nil
  then show ?case by simp
next
  case (Cons pv m)
  obtain vpath v where pv: "pv = (vpath, v)" by fastforce
  obtain r h' where
    d: "do_data_op h self vpath (if is_iterable v then list_extend v else list_append v) True = (Inr r, h')"
    using do_data_op_create_returns by blast
  note dok = do_data_op_ok[OF Cons.prems(1,2) d]
  have "log_vpaths_vals h' self m = (res, h1)" using Cons.prems(3) pv d by simp
  from Cons.IH[OF dok(1) _ this] dok(2) Cons.prems(2) show ?case by simp
qed

lemma log_ok:
  assumes "heap_ok h" "root self < next_addr h" "log h self args = (res, h1)"
  shows "heap_ok h1" "next_addr h \<le> next_addr h1"
proof -
  have "heap_ok h1 \<and> next_addr h \<le> next_addr h1"
    using assms log_vpaths_vals_ok[OF assms(1,2)]
    by (auto simp: log_def Let_def split: if_splits val.splits simp del: log_vpaths_vals.simps)
  then show "heap_ok h1" "next_addr h \<le> next_addr h1" by simp_all
qed

lemma make_child_ok:
  assumes "heap_ok h" "root self < next_addr h" "make_child h self vpath = (res, h1)"
  shows "heap_ok h1" "next_addr h \<le> next_addr h1" "\<exists>child. res = Inr child \<and> root child < next_addr h1"
proof -
  obtain n h' where t: "traverse h self vpath True = (Inr n, h')"
    using traverse_create_returns by blast
  note tok = traverse_ok[OF assms(1,2) t]
  from assms(3) t have "res = Inr (Logger n)" "h1 = h'" by (simp_all add: make_child_def)
  then show "heap_ok h1" "next_addr h \<le> next_addr h1"
    "\<exists>child. res = Inr child \<and> root child < next_addr h1"
    using tok by simp_all
qed

section \<open>Key collisions in the export\<close>

lemma store0_ok: "heap_ok store0" "root logger0 < next_addr store0"
  unfolding store0_def logger0_def by (rule new_logger_ok[OF heap_ok_empty])+

lemma log_ok':
  assumes "heap_ok h" "root self < next_addr h"
  shows "heap_ok (snd (log h self args))" "root self < next_addr (snd (log h self args))"
  using log_ok[OF assms surjective_pairing, of args] assms(2) by simp_all

lemma make_child_ok':
  assumes "heap_ok h" "root self < next_addr h"
  shows "heap_ok (snd (make_child h self vpath))"
    "root self < next_addr (snd (make_child h self vpath))"
  using make_child_ok[OF assms surjective_pairing, of vpath] assms(2) by simp_all

text \<open>
  Claim C10. When a key \<open>k\<close> is at one node both a data key and the key of a child,
  \<open>parse()\<close> (and so \<open>as_dict()\<close>) keeps the child: if the export of the child is not
  empty, \<open>k\<close> is bound to that export and the data list is not in the output; if it is
  empty, \<open>k\<close> is bound to the data list. On a well-formed store the export returns, and
  whenever it returns the binding of \<open>k\<close> is this one.
\<close>

theorem parse_collision_prefers_child:
  assumes ok: "heap_ok h" and r: "root self < next_addr h"
    and d: "map_of (data (nodes h (root self))) k = Some l"
    and c: "map_of (children (nodes h (root self))) k = Some c"
  shows "(\<exists>n res. as_dict n h self = Some res)
       \<and> (\<forall>n res. as_dict n h self = Some res \<longrightarrow>
            distinct (map fst res)
            \<and> (\<exists>m pc. node_parse m h c = Some pc
                  \<and> map_of res k = Some (if pc \<noteq> [] then DictV pc else ListV l)))"
proof (intro conjI allI impI)
  show "\<exists>n res. as_dict n h self = Some res"
    using node_parse_total[OF ok r order_refl] unfolding as_dict_def by blast
next
  fix n res assume a: "as_dict n h self = Some res"
  then obtain n' where n: "n = Suc n'" by (cases n) (simp_all add: as_dict_def)
  from a n have pc: "parse_children n' h (children (nodes h (root self)))
      (map (\<lambda>kl. (fst kl, ListV (snd kl))) (data (nodes h (root self)))) = Some res"
    by (simp add: as_dict_def)
  show "distinct (map fst res)"
    by (rule parse_children_distinct[OF pc])
      (simp only: map_fst_data_items heap_ok_distinct_data[OF ok r])
  from parse_children_child[OF pc c heap_ok_distinct_children[OF ok r]]
  obtain p where "node_parse n' h c = Some p"
    and "map_of res k = (if p \<noteq> [] then Some (DictV p)
        else map_of (map (\<lambda>kl. (fst kl, ListV (snd kl))) (data (nodes h (root self)))) k)"
    by blast
  then show "\<exists>m pc. node_parse m h c = Some pc
      \<and> map_of res k = Some (if pc \<noteq> [] then DictV pc else ListV l)"
    using d by (auto simp: map_of_data_items)
qed

theorem parse_collision_prefers_child_witness:
  "as_dict 2 (snd (log (snd (log store0 logger0 [StrV ''a'', IntV 1])) logger0 [StrV ''a/b'', IntV 2]))
      logger0 = Some [(''a'', DictV [(''b'', ListV [IntV 2])])]
   \<and> as_dict 2 (snd (make_child (snd (log store0 logger0 [StrV ''a'', IntV 1])) logger0 ''a''))
      logger0 = Some [(''a'', ListV [IntV 1])]
   \<and> (\<exists>m pc. node_parse m
          (snd (log (snd (log store0 logger0 [StrV ''a'', IntV 1])) logger0 [StrV ''a/b'', IntV 2])) 1
          = Some pc
        \<and> map_of [(''a'', DictV [(''b'', ListV [IntV 2])])] ''a''
          = Some (if pc \<noteq> [] then DictV pc else ListV [IntV 1]))
   \<and> (\<exists>m pc. node_parse m
          (snd (make_child (snd (log store0 logger0 [StrV ''a'', IntV 1])) logger0 ''a'')) 1
          = Some pc
        \<and> map_of [(''a'', ListV [IntV 1])] ''a''
          = Some (if pc \<noteq> [] then DictV pc else ListV [IntV 1]))"
proof -
  let ?h1 = "snd (log store0 logger0 [StrV ''a'', IntV 1])"
  let ?h2 = "snd (log ?h1 logger0 [StrV ''a/b'', IntV 2])"
  let ?h3 = "snd (make_child ?h1 logger0 ''a'')"
  note ok1 = log_ok'[OF store0_ok, of "[StrV ''a'', IntV 1]"]
  note ok2 = log_ok'[OF ok1, of "[StrV ''a/b'', IntV 2]"]
  note ok3 = make_child_ok'[OF ok1, of "''a''"]
  have e2: "as_dict 2 ?h2 logger0 = Some [(''a'', DictV [(''b'', ListV [IntV 2])])]"
    by (simp add: eval_defs store0_def logger0_def numeral_2_eq_2)
  have e3: "as_dict 2 ?h3 logger0 = Some [(''a'', ListV [IntV 1])]"
    by (simp add: eval_defs store0_def logger0_def numeral_2_eq_2)
  have d2: "map_of (data (nodes ?h2 (root logger0))) ''a'' = Some [IntV 1]"
    and c2: "map_of (children (nodes ?h2 (root logger0))) ''a'' = Some 1"
    by (simp_all add: eval_defs store0_def logger0_def)
  have d3: "map_of (data (nodes ?h3 (root logger0))) ''a'' = Some [IntV 1]"
    and c3: "map_of (children (nodes ?h3 (root logger0))) ''a'' = Some 1"
    by (simp_all add: eval_defs store0_def logger0_def)
  from parse_collision_prefers_child[OF ok2 d2 c2] e2
  have w2: "\<exists>m pc. node_parse m ?h2 1 = Some pc
        \<and> map_of [(''a'', DictV [(''b'', ListV [IntV 2])])] ''a''
          = Some (if pc \<noteq> [] then DictV pc else ListV [IntV 1])"
    by blast
  from parse_collision_prefers_child[OF ok3 d3 c3] e3
  have w3: "\<exists>m pc. node_parse m ?h3 1 = Some pc
        \<and> map_of [(''a'', ListV [IntV 1])] ''a''
          = Some (if pc \<noteq> [] then DictV pc else ListV [IntV 1])"
    by blast
  from e2 e3 w2 w3 show ?thesis by blast
qed

section \<open>Paths into the tree\<close>

lemma descend_append:
  "descend h a (p @ q) = (case descend h a p of None \<Rightarrow> None | Some m \<Rightarrow> descend h m q)"
  by (induction p arbitrary: a) (simp_all split: option.splits)

lemma descend_bounds:
  assumes ok: "heap_ok h"
  shows "a < next_addr h \<Longrightarrow> descend h a p = Some b \<Longrightarrow>
    a \<le> b \<and> b < next_addr h \<and> (p \<noteq> [] \<longrightarrow> a < b)"
proof (induction p arbitrary: a)
  case Nil
  then show ?case by simp
next
  case (Cons k p)
  from Cons.prems(2) obtain c where c: "map_of (children (nodes h a)) k = Some c"
    and d: "descend h c p = Some b" by (auto split: option.splits)
  note cb = heap_ok_child[OF ok Cons.prems(1) c]
  from Cons.IH[OF cb(2) d] cb show ?case by simp
qed

lemma descend_inj:
  assumes ok: "heap_ok h" and a: "a < next_addr h"
  shows "descend h a p = Some b \<Longrightarrow> descend h a p' = Some b \<Longrightarrow> p = p'"
proof (induction p arbitrary: p' b rule: rev_induct)
  case Nil
  then have ba: "b = a" by simp
  show ?case
  proof (cases "p' = []")
    case True
    then show ?thesis by simp
  next
    case False
    with descend_bounds[OF ok a Nil.prems(2)] ba show ?thesis by simp
  qed
next
  case (snoc k q)
  from snoc.prems(1) obtain m where m: "descend h a q = Some m"
    and e: "map_of (children (nodes h m)) k = Some b"
    by (auto simp: descend_append split: option.splits)
  note mb = descend_bounds[OF ok a m]
  note bb = heap_ok_child[OF ok _ e]
  show ?case
  proof (cases p' rule: rev_cases)
    case Nil
    with snoc.prems(2) have "b = a" by simp
    with mb bb show ?thesis by simp
  next
    case (snoc q' k')
    with snoc.prems(2) obtain m' where m': "descend h a q' = Some m'"
      and e': "map_of (children (nodes h m')) k' = Some b"
      by (auto simp: descend_append split: option.splits)
    note mb' = descend_bounds[OF ok a m']
    from heap_ok_unique[OF ok _ map_of_SomeD[OF e] _ map_of_SomeD[OF e']] mb mb'
    have "m' = m" "k' = k" by simp_all
    with snoc.IH[OF m] m' snoc show ?thesis by simp
  qed
qed

lemma descend_subtree_iff:
  assumes ok: "heap_ok h" and a: "a < next_addr h"
    and c: "descend h a ks = Some c" and b: "descend h a p = Some b"
  shows "(\<exists>q. descend h c q = Some b) \<longleftrightarrow> prefix ks p"
proof
  assume "\<exists>q. descend h c q = Some b"
  then obtain q where "descend h c q = Some b" ..
  with c have "descend h a (ks @ q) = Some b" by (simp add: descend_append)
  from descend_inj[OF ok a this b] show "prefix ks p" by auto
next
  assume "prefix ks p"
  then obtain q where "p = ks @ q" by (auto simp: prefix_def)
  with b c have "descend h c q = Some b" by (simp add: descend_append)
  then show "\<exists>q. descend h c q = Some b" ..
qed

section \<open>Shape of a store\<close>

lemma same_shape_refl: "same_shape h h"
  by (simp add: same_shape_def)

lemma same_shape_trans: "same_shape h h1 \<Longrightarrow> same_shape h1 h2 \<Longrightarrow> same_shape h h2"
  by (simp add: same_shape_def)

lemma same_shape_set_data: "same_shape h (set_data h a d)"
  by (simp add: same_shape_def set_data_simps)

lemma same_shape_descend: "same_shape h h' \<Longrightarrow> descend h' a p = descend h a p"
  by (induction p arbitrary: a) (simp_all add: same_shape_def split: option.splits)

lemma same_shape_subtree: "same_shape h h' \<Longrightarrow> in_subtree h' a b = in_subtree h a b"
  by (simp add: in_subtree_def same_shape_descend)

lemma same_shape_ok:
  assumes ok: "heap_ok h" and sh: "same_shape h h'"
    and da: "\<And>b. data (nodes h' b) = [] \<or> data (nodes h' b) = data (nodes h b)"
  shows "heap_ok h'"
proof -
  have nx: "next_addr h' = next_addr h" and ch: "\<And>b. children (nodes h' b) = children (nodes h b)"
    using sh by (simp_all add: same_shape_def)
  show ?thesis
  proof (rule heap_okI)
    fix b assume b: "b < next_addr h'"
    show "distinct (map fst (data (nodes h' b)))"
      using heap_ok_distinct_data[OF ok, of b] b da[of b] nx by auto
    show "distinct (map fst (children (nodes h' b)))"
      using heap_ok_distinct_children[OF ok, of b] b nx by (simp add: ch)
  next
    fix b k x assume "b < next_addr h'" and "(k, x) \<in> set (children (nodes h' b))"
    then show "b < x \<and> x < next_addr h'"
      using heap_ok_edge[OF ok, of b k x] by (simp add: ch nx)
  next
    fix b k x b' k' assume "b < next_addr h'" and "(k, x) \<in> set (children (nodes h' b))"
      and "b' < next_addr h'" and "(k', x) \<in> set (children (nodes h' b'))"
    then show "b' = b \<and> k' = k"
      using heap_ok_unique[OF ok, of b k x b' k'] by (simp add: ch nx)
  qed
qed

lemma in_subtree_step:
  assumes ok: "heap_ok h" and a: "a < next_addr h"
  shows "in_subtree h a b \<longleftrightarrow>
    b = a \<or> (\<exists>c \<in> set (map snd (children (nodes h a))). in_subtree h c b)"
proof
  assume "in_subtree h a b"
  then obtain p where p: "descend h a p = Some b" by (auto simp: in_subtree_def)
  show "b = a \<or> (\<exists>c \<in> set (map snd (children (nodes h a))). in_subtree h c b)"
  proof (cases p)
    case Nil
    with p show ?thesis by simp
  next
    case (Cons k q)
    with p obtain c where c: "map_of (children (nodes h a)) k = Some c"
      and d: "descend h c q = Some b" by (auto split: option.splits)
    from map_of_SomeD[OF c] have "c \<in> set (map snd (children (nodes h a)))" by force
    moreover from d have "in_subtree h c b" by (auto simp: in_subtree_def)
    ultimately show ?thesis by blast
  qed
next
  assume "b = a \<or> (\<exists>c \<in> set (map snd (children (nodes h a))). in_subtree h c b)"
  then show "in_subtree h a b"
  proof
    assume "b = a"
    then have "descend h a [] = Some b" by simp
    then show ?thesis unfolding in_subtree_def by blast
  next
    assume "\<exists>c \<in> set (map snd (children (nodes h a))). in_subtree h c b"
    then obtain k c q where e: "(k, c) \<in> set (children (nodes h a))"
      and d: "descend h c q = Some b" by (auto simp: in_subtree_def)
    have "map_of (children (nodes h a)) k = Some c"
      using e heap_ok_distinct_children[OF ok a] by simp
    with d have "descend h a (k # q) = Some b" by simp
    then show ?thesis unfolding in_subtree_def by blast
  qed
qed

section \<open>Clearing\<close>

lemma cleared_ok: "heap_ok h \<Longrightarrow> cleared h h' S \<Longrightarrow> heap_ok h'"
  by (rule same_shape_ok[of h h']) (auto simp: cleared_def)

lemma clear_children_frame:
  assumes IH: "\<And>h c h'. heap_ok h \<Longrightarrow> c < next_addr h \<Longrightarrow> node_clear n h c = Some h'
      \<Longrightarrow> cleared h h' (in_subtree h c)"
  shows "heap_ok h \<Longrightarrow> \<forall>c \<in> set cs. c < next_addr h \<Longrightarrow> clear_children n h cs = Some h'
      \<Longrightarrow> cleared h h' (\<lambda>b. \<exists>c \<in> set cs. in_subtree h c b)"
proof (induction cs arbitrary: h)
  case Nil
  then show ?case by (simp add: cleared_def same_shape_refl)
next
  case (Cons c cs)
  from Cons.prems(3) obtain h1 where c1: "node_clear n h c = Some h1"
    and c2: "clear_children n h1 cs = Some h'" by (auto split: option.splits)
  have cl1: "cleared h h1 (in_subtree h c)"
    by (rule IH[OF Cons.prems(1) _ c1]) (use Cons.prems(2) in simp)
  have ok1: "heap_ok h1" by (rule cleared_ok[OF Cons.prems(1) cl1])
  have sh1: "same_shape h h1" using cl1 by (simp add: cleared_def)
  have nx: "next_addr h1 = next_addr h" using sh1 by (simp add: same_shape_def)
  have cl2: "cleared h1 h' (\<lambda>b. \<exists>c \<in> set cs. in_subtree h1 c b)"
    by (rule Cons.IH[OF ok1 _ c2]) (use Cons.prems(2) nx in simp)
  have sub: "\<And>x b. in_subtree h1 x b = in_subtree h x b"
    by (rule same_shape_subtree[OF sh1])
  show ?case
    using cl1 cl2 sh1 unfolding cleared_def sub
    by (auto intro: same_shape_trans)
qed

lemma node_clear_frame:
  "heap_ok h \<Longrightarrow> a < next_addr h \<Longrightarrow> node_clear n h a = Some h'
    \<Longrightarrow> cleared h h' (in_subtree h a)"
proof (induction n arbitrary: h a h')
  case 0
  then show ?case by simp
next
  case (Suc n)
  from Suc.prems(3) obtain h1 where
    c1: "clear_children n h (map snd (children (nodes h a))) = Some h1"
    and h': "h' = set_data h1 a []" by (auto split: option.splits)
  have bnd: "\<forall>c \<in> set (map snd (children (nodes h a))). c < next_addr h"
    using heap_ok_edge[OF Suc.prems(1,2)] by auto
  have cl1: "cleared h h1 (\<lambda>b. \<exists>c \<in> set (map snd (children (nodes h a))). in_subtree h c b)"
    by (rule clear_children_frame[OF Suc.IH Suc.prems(1) bnd c1])
  show ?case
    using cl1 unfolding cleared_def h' in_subtree_step[OF Suc.prems(1,2)]
    by (auto simp: set_data_simps intro: same_shape_trans same_shape_set_data)
qed

lemma clear_children_total:
  assumes IH: "\<And>h c. heap_ok h \<Longrightarrow> c < next_addr h \<Longrightarrow> next_addr h - c \<le> n
      \<Longrightarrow> \<exists>h'. node_clear n h c = Some h'"
  shows "heap_ok h \<Longrightarrow> \<forall>c \<in> set cs. c < next_addr h \<and> next_addr h - c \<le> n
      \<Longrightarrow> \<exists>h'. clear_children n h cs = Some h'"
proof (induction cs arbitrary: h)
  case Nil
  then show ?case by simp
next
  case (Cons c cs)
  have "\<exists>h1. node_clear n h c = Some h1"
    by (rule IH[OF Cons.prems(1)]) (use Cons.prems(2) in simp_all)
  then obtain h1 where c1: "node_clear n h c = Some h1" ..
  have cl1: "cleared h h1 (in_subtree h c)"
    by (rule node_clear_frame[OF Cons.prems(1) _ c1]) (use Cons.prems(2) in simp)
  have ok1: "heap_ok h1" by (rule cleared_ok[OF Cons.prems(1) cl1])
  have nx: "next_addr h1 = next_addr h" using cl1 by (simp add: cleared_def same_shape_def)
  have "\<exists>h'. clear_children n h1 cs = Some h'"
    by (rule Cons.IH[OF ok1]) (use Cons.prems(2) nx in simp)
  then show ?case using c1 by simp
qed

lemma node_clear_total:
  "heap_ok h \<Longrightarrow> a < next_addr h \<Longrightarrow> next_addr h - a \<le> n \<Longrightarrow> \<exists>h'. node_clear n h a = Some h'"
proof (induction n arbitrary: h a)
  case 0
  then show ?case by simp
next
  case (Suc n)
  have bnd: "\<forall>c \<in> set (map snd (children (nodes h a))). c < next_addr h \<and> next_addr h - c \<le> n"
  proof
    fix c assume "c \<in> set (map snd (children (nodes h a)))"
    then obtain k where "(k, c) \<in> set (children (nodes h a))" by auto
    from heap_ok_edge[OF Suc.prems(1,2) this] Suc.prems(3)
    show "c < next_addr h \<and> next_addr h - c \<le> n" by arith
  qed
  have "\<exists>h1. clear_children n h (map snd (children (nodes h a))) = Some h1"
    by (rule clear_children_total[OF Suc.IH Suc.prems(1) bnd])
  then show ?case by auto
qed

text \<open>
  Claim C6. On a well-formed store, with a child logger on the node at the path \<open>ks\<close>
  below the root of a parent logger: \<open>clear()\<close> returns for both (the recursion limit
  permitting), and it keeps the shape of the store, that is every node and its
  children. Clearing the parent empties the data of every node below the parent's root,
  the nodes below the child's root among them, and of no other node. Clearing the child
  empties the data of every node below the child's root; a node of the parent's tree at
  a path that does not run through \<open>ks\<close> (an ancestor or a sibling) keeps its data, as
  does every node outside the child's subtree.
\<close>

theorem clear_empties_subtree_only:
  assumes ok: "heap_ok h" and r: "root parent < next_addr h"
    and c: "descend h (root parent) ks = Some (root child)"
  shows
    "(\<forall>n. next_addr h \<le> n \<longrightarrow> clear n h parent \<noteq> None \<and> clear n h child \<noteq> None)
     \<and> (\<forall>n h'. clear n h parent = Some h' \<longrightarrow>
          same_shape h h'
          \<and> (\<forall>p b. descend h (root parent) p = Some b \<longrightarrow> data (nodes h' b) = [])
          \<and> (\<forall>q b. descend h (root child) q = Some b \<longrightarrow> data (nodes h' b) = [])
          \<and> (\<forall>b. \<not> in_subtree h (root parent) b \<longrightarrow> data (nodes h' b) = data (nodes h b)))
     \<and> (\<forall>n h'. clear n h child = Some h' \<longrightarrow>
          same_shape h h'
          \<and> (\<forall>q b. descend h (root child) q = Some b \<longrightarrow> data (nodes h' b) = [])
          \<and> (\<forall>p b. descend h (root parent) p = Some b \<longrightarrow> \<not> prefix ks p \<longrightarrow>
                data (nodes h' b) = data (nodes h b))
          \<and> (\<forall>b. \<not> in_subtree h (root child) b \<longrightarrow> data (nodes h' b) = data (nodes h b)))"
proof -
  have rc: "root child < next_addr h"
    using descend_bounds[OF ok r c] by simp
  have total: "\<forall>n. next_addr h \<le> n \<longrightarrow> clear n h parent \<noteq> None \<and> clear n h child \<noteq> None"
  proof (intro allI impI)
    fix n assume n: "next_addr h \<le> n"
    then have "next_addr h - root parent \<le> n" "next_addr h - root child \<le> n" by simp_all
    from node_clear_total[OF ok r this(1)] node_clear_total[OF ok rc this(2)]
    show "clear n h parent \<noteq> None \<and> clear n h child \<noteq> None"
      by (auto simp: clear_def)
  qed
  have par: "\<forall>n h'. clear n h parent = Some h' \<longrightarrow>
          same_shape h h'
          \<and> (\<forall>p b. descend h (root parent) p = Some b \<longrightarrow> data (nodes h' b) = [])
          \<and> (\<forall>q b. descend h (root child) q = Some b \<longrightarrow> data (nodes h' b) = [])
          \<and> (\<forall>b. \<not> in_subtree h (root parent) b \<longrightarrow> data (nodes h' b) = data (nodes h b))"
  proof (intro allI impI)
    fix n h' assume "clear n h parent = Some h'"
    then have cl: "cleared h h' (in_subtree h (root parent))"
      using node_clear_frame[OF ok r] by (simp add: clear_def)
    have sub: "\<And>q b. descend h (root child) q = Some b \<Longrightarrow> in_subtree h (root parent) b"
    proof -
      fix q b assume "descend h (root child) q = Some b"
      with c have "descend h (root parent) (ks @ q) = Some b" by (simp add: descend_append)
      then show "in_subtree h (root parent) b" unfolding in_subtree_def by blast
    qed
    show "same_shape h h'
          \<and> (\<forall>p b. descend h (root parent) p = Some b \<longrightarrow> data (nodes h' b) = [])
          \<and> (\<forall>q b. descend h (root child) q = Some b \<longrightarrow> data (nodes h' b) = [])
          \<and> (\<forall>b. \<not> in_subtree h (root parent) b \<longrightarrow> data (nodes h' b) = data (nodes h b))"
      using cl sub unfolding cleared_def in_subtree_def by (metis (full_types))
  qed
  have chi: "\<forall>n h'. clear n h child = Some h' \<longrightarrow>
          same_shape h h'
          \<and> (\<forall>q b. descend h (root child) q = Some b \<longrightarrow> data (nodes h' b) = [])
          \<and> (\<forall>p b. descend h (root parent) p = Some b \<longrightarrow> \<not> prefix ks p \<longrightarrow>
                data (nodes h' b) = data (nodes h b))
          \<and> (\<forall>b. \<not> in_subtree h (root child) b \<longrightarrow> data (nodes h' b) = data (nodes h b))"
  proof (intro allI impI conjI)
    fix n h' assume "clear n h child = Some h'"
    then have cl: "cleared h h' (in_subtree h (root child))"
      using node_clear_frame[OF ok rc] by (simp add: clear_def)
    show "same_shape h h'" using cl by (simp add: cleared_def)
    show "\<And>q b. descend h (root child) q = Some b \<Longrightarrow> data (nodes h' b) = []"
      using cl unfolding cleared_def in_subtree_def by metis
    show "\<And>b. \<not> in_subtree h (root child) b \<Longrightarrow> data (nodes h' b) = data (nodes h b)"
      using cl unfolding cleared_def by simp
    show "\<And>p b. descend h (root parent) p = Some b \<Longrightarrow> \<not> prefix ks p \<Longrightarrow>
        data (nodes h' b) = data (nodes h b)"
    proof -
      fix p b assume b: "descend h (root parent) p = Some b" and np: "\<not> prefix ks p"
      from descend_subtree_iff[OF ok r c b] np have "\<not> in_subtree h (root child) b"
        by (simp add: in_subtree_def)
      then show "data (nodes h' b) = data (nodes h b)"
        using cl unfolding cleared_def by simp
    qed
  qed
  from total par chi show ?thesis by blast
qed

lemmas scenario_defs = store_ab_def store0_def logger0_def child_ab_def

lemma store_ab_ok: "heap_ok store_ab" "root logger0 < next_addr store_ab"
proof -
  let ?h1 = "snd (make_child store0 logger0 ''a/b'')"
  let ?h2 = "snd (log ?h1 logger0 [DictV [(''v'', IntV 1), (''a/w'', IntV 2), (''a/c/x'', IntV 3)]])"
  note ok1 = make_child_ok'[OF store0_ok, of "''a/b''"]
  note ok2 = log_ok'[OF ok1, of "[DictV [(''v'', IntV 1), (''a/w'', IntV 2), (''a/c/x'', IntV 3)]]"]
  have rc: "root child_ab < next_addr ?h2"
    by (simp add: eval_defs scenario_defs)
  from log_ok'(1)[OF ok2(1) rc, of "[DictV [(''y'', IntV 4), (''d/z'', IntV 5)]]"]
  show "heap_ok store_ab" by (simp add: store_ab_def)
  show "root logger0 < next_addr store_ab"
    by (simp add: eval_defs scenario_defs)
qed

lemma store_ab_facts:
  "next_addr store_ab = 5"
  "root logger0 = 0" "root child_ab = 2"
  "descend store_ab 0 [] = Some 0"
  "descend store_ab 2 [] = Some 2"
  "descend store_ab 0 [''a''] = Some 1"
  "descend store_ab 0 [''a'', ''b''] = Some 2"
  "descend store_ab 0 [''a'', ''c''] = Some 3"
  "descend store_ab 2 [''d''] = Some 4"
  "data (nodes store_ab 0) = [(''v'', [IntV 1])]"
  "data (nodes store_ab (Suc 0)) = [(''w'', [IntV 2])]"
  "data (nodes store_ab 3) = [(''x'', [IntV 3])]"
  by (simp_all add: eval_defs scenario_defs)

theorem clear_empties_subtree_only_witness:
  "fst (make_child store0 logger0 ''a/b'') = Inr child_ab
   \<and> (\<exists>h'. clear 5 store_ab child_ab = Some h'
        \<and> map (\<lambda>a. data (nodes h' a)) [0, 1, 2, 3, 4] =
            [[(''v'', [IntV 1])], [(''w'', [IntV 2])], [], [(''x'', [IntV 3])], []]
        \<and> map (\<lambda>a. children (nodes h' a)) [0, 1, 2, 3, 4] =
            map (\<lambda>a. children (nodes store_ab a)) [0, 1, 2, 3, 4])
   \<and> (\<exists>h'. clear 5 store_ab logger0 = Some h'
        \<and> map (\<lambda>a. data (nodes h' a)) [0, 1, 2, 3, 4] = [[], [], [], [], []]
        \<and> map (\<lambda>a. children (nodes h' a)) [0, 1, 2, 3, 4] =
            map (\<lambda>a. children (nodes store_ab a)) [0, 1, 2, 3, 4])"
proof -
  note f = store_ab_facts
  have c: "descend store_ab (root logger0) [''a'', ''b''] = Some (root child_ab)"
    by (simp add: f del: descend.simps)
  note main = clear_empties_subtree_only[OF store_ab_ok c]
  from main have "clear 5 store_ab logger0 \<noteq> None" "clear 5 store_ab child_ab \<noteq> None"
    by (simp_all add: f)
  then obtain hp hc where hp: "clear 5 store_ab logger0 = Some hp"
    and hc: "clear 5 store_ab child_ab = Some hc" by auto
  from main hp have p1: "same_shape store_ab hp"
    and p2: "\<And>p b. descend store_ab (root logger0) p = Some b \<Longrightarrow> data (nodes hp b) = []"
    and p3: "\<And>q b. descend store_ab (root child_ab) q = Some b \<Longrightarrow> data (nodes hp b) = []"
    by blast+
  from main hc have c1: "same_shape store_ab hc"
    and c2: "\<And>q b. descend store_ab (root child_ab) q = Some b \<Longrightarrow> data (nodes hc b) = []"
    and c3: "\<And>p b. descend store_ab (root logger0) p = Some b \<Longrightarrow> \<not> prefix [''a'', ''b''] p
        \<Longrightarrow> data (nodes hc b) = data (nodes store_ab b)"
    by blast+
  have dp: "map (\<lambda>a. data (nodes hp a)) [0, 1, 2, 3, 4] = [[], [], [], [], []]"
    using p2[of "[]" 0] p2[of "[''a'']" 1] p3[of "[]" 2] p2[of "[''a'', ''c'']" 3] p3[of "[''d'']" 4]
    by (simp add: f del: descend.simps)
  have dc: "map (\<lambda>a. data (nodes hc a)) [0, 1, 2, 3, 4] =
      [[(''v'', [IntV 1])], [(''w'', [IntV 2])], [], [(''x'', [IntV 3])], []]"
    using c3[of "[]" 0] c3[of "[''a'']" 1] c2[of "[]" 2] c3[of "[''a'', ''c'']" 3] c2[of "[''d'']" 4]
    by (simp add: f del: descend.simps)
  have m: "fst (make_child store0 logger0 ''a/b'') = Inr child_ab"
    by (simp add: eval_defs scenario_defs)
  from m hp hc dp dc p1 c1 show ?thesis by (simp add: same_shape_def)
qed

section \<open>Reading and writing a path\<close>

lemma str_split_nonempty: "str_split sep s \<noteq> []"
  by (induction s) auto

lemma str_split_no_sep: "sep \<notin> set s \<Longrightarrow> str_split sep s = [s]"
  by (induction s) auto

lemma str_split_snoc:
  "sep \<notin> set k \<Longrightarrow> str_split sep (d @ sep # k) = str_split sep d @ [k]"
proof (induction d)
  case Nil
  then show ?case by (simp add: str_split_no_sep)
next
  case (Cons c d)
  then show ?case using str_split_nonempty[of sep d] by (cases "str_split sep d") auto
qed

lemma rsplit_vpath_no_sep: "CHR ''/'' \<notin> set p \<Longrightarrow> rsplit_vpath p = ([], p)"
  by (simp add: rsplit_vpath_def str_rsplit1_def)

lemma rsplit_vpath_sep:
  assumes "CHR ''/'' \<in> set p" "rsplit_vpath p = (d, k)"
  shows "p = d @ CHR ''/'' # k" "CHR ''/'' \<notin> set k"
  using assms rsplit_join[of "CHR ''/''" p] takeWhile_no_sep[of "CHR ''/''" "rev p"]
  by (auto simp: rsplit_vpath_def str_rsplit1_def)

lemma str_split_rsplit:
  assumes "CHR ''/'' \<in> set p" "rsplit_vpath p = (d, k)"
  shows "str_split (CHR ''/'') p = str_split (CHR ''/'') d @ [k]"
  using rsplit_vpath_sep[OF assms] by (simp add: str_split_snoc)

lemma descend_last:
  assumes "descend h a ks = Some n" "ks \<noteq> []"
  shows "\<exists>m. descend h a (butlast ks) = Some m \<and> map_of (children (nodes h m)) (last ks) = Some n"
proof -
  from assms(2) have "ks = butlast ks @ [last ks]" by simp
  with assms(1) have "descend h a (butlast ks @ [last ks]) = Some n" by simp
  then show ?thesis by (auto simp: descend_append split: option.splits)
qed

lemma descend_last_iff:
  assumes "ks \<noteq> []"
  shows "descend h a ks = Some n \<longleftrightarrow>
    (\<exists>m. descend h a (butlast ks) = Some m \<and> map_of (children (nodes h m)) (last ks) = Some n)"
proof
  assume "descend h a ks = Some n"
  then show "\<exists>m. descend h a (butlast ks) = Some m \<and> map_of (children (nodes h m)) (last ks) = Some n"
    by (rule descend_last[OF _ assms])
next
  assume "\<exists>m. descend h a (butlast ks) = Some m \<and> map_of (children (nodes h m)) (last ks) = Some n"
  then have "descend h a (butlast ks @ [last ks]) = Some n"
    by (auto simp: descend_append)
  then show "descend h a ks = Some n" using assms by simp
qed

lemma traverse_dir_keys:
  "create \<or> vpath = [] \<or> contains h self vpath \<Longrightarrow>
   traverse h self vpath create =
     (Inr (fst (setdefault_walk h (root self) (dir_keys vpath))),
      snd (setdefault_walk h (root self) (dir_keys vpath)))"
  by (auto simp: traverse_def dir_keys_def split: prod.splits)

lemma traverse_not_contained:
  "vpath \<noteq> [] \<Longrightarrow> \<not> contains h self vpath \<Longrightarrow>
   traverse h self vpath False = (Inl (KeyError (''vpath '' @ vpath @ '' does not exist.'')), h)"
  by (simp add: traverse_def)

lemma contains_descend:
  assumes "descend h (root self) (dir_keys vpath) = Some n"
  shows "vpath = [] \<or> contains h self vpath"
proof (cases "vpath = []")
  case True
  then show ?thesis by simp
next
  case False
  then have ks: "dir_keys vpath = str_split (CHR ''/'') vpath" by (simp add: dir_keys_def)
  from descend_last[OF assms[unfolded ks] str_split_nonempty]
  show ?thesis using False by (auto simp: contains_def Let_def key_in_def)
qed

lemma not_contains_descend:
  assumes "vpath \<noteq> []" "\<not> contains h self vpath"
  shows "descend h (root self) (dir_keys vpath) = None"
proof (cases "descend h (root self) (dir_keys vpath)")
  case None
  then show ?thesis .
next
  case (Some n)
  from contains_descend[OF Some] assms show ?thesis by simp
qed

lemma setdefault_walk_fresh:
  "heap_ok h \<Longrightarrow> a < next_addr h \<Longrightarrow> descend h a ks = None \<Longrightarrow>
   setdefault_walk h a ks = (n, h1) \<Longrightarrow> next_addr h \<le> n \<and> data (nodes h1 n) = []"
proof (induction ks arbitrary: h a)
  case Nil
  then show ?case by simp
next
  case (Cons key rest)
  obtain c h' where step: "children_setdefault h a key = (c, h')" by fastforce
  note bd = children_setdefault_bounds[OF Cons.prems(1,2) step]
  have ok': "heap_ok h'" by (rule children_setdefault_ok[OF Cons.prems(1,2) step])
  have w: "setdefault_walk h' c rest = (n, h1)" using Cons.prems(4) step by simp
  show ?case
  proof (cases "map_of (children (nodes h a)) key")
    case (Some c0)
    then have "c = c0" "h' = h" using step by (simp_all add: children_setdefault_present)
    moreover have "descend h c0 rest = None" using Cons.prems(3) Some by simp
    ultimately show ?thesis using Cons.IH[OF ok' bd(2) _ w] by simp
  next
    case None
    note new = children_setdefault_new[OF Cons.prems(2) step None]
    show ?thesis
    proof (cases rest)
      case Nil
      then show ?thesis using w new by simp
    next
      case (Cons k2 r2)
      then have "descend h' c rest = None" using new(3) by simp
      from Cons.IH[OF ok' bd(2) this w] bd(3) show ?thesis by simp
    qed
  qed
qed

lemma set_data_same: "set_data h a (data (nodes h a)) = h"
  by (simp add: set_data_def)

lemma do_data_op_create:
  assumes s: "rsplit_vpath vpath = (d, k)"
    and w: "setdefault_walk h (root self) (dir_keys d) = (n, h1)"
  shows "do_data_op h self vpath op True =
    (Inr (snd (op (case map_of (data (nodes h1 n)) k of Some l \<Rightarrow> l | None \<Rightarrow> []))),
     set_data h1 n (AList.update k
       (fst (op (case map_of (data (nodes h1 n)) k of Some l \<Rightarrow> l | None \<Rightarrow> [])))
       (data (nodes h1 n))))"
proof -
  have t: "traverse h self d True = (Inr n, h1)"
    using traverse_dir_keys[of True d h self] w by simp
  show ?thesis using s t by (simp add: do_data_op_def Let_def split: prod.splits)
qed

lemma getitem_found:
  assumes s: "rsplit_vpath vpath = (d, k)"
    and n: "descend h (root self) (dir_keys d) = Some n"
    and l: "map_of (data (nodes h n)) k = Some l"
  shows "getitem h self vpath = (Inr (ListV l), h)"
proof -
  have w: "setdefault_walk h (root self) (dir_keys d) = (n, h)"
    by (rule setdefault_walk_existing[OF n])
  have t: "traverse h self d False = (Inr n, h)"
    using traverse_dir_keys[of False d h self] contains_descend[OF n] w by auto
  show ?thesis using s t l
    by (simp add: getitem_def do_data_op_def Let_def list_ident_def update_triv set_data_same)
qed

lemma stored_list_eq:
  assumes ok: "heap_ok h" and r: "root self < next_addr h"
    and s: "rsplit_vpath vpath = (d, k)"
    and w: "setdefault_walk h (root self) (dir_keys d) = (n, h1)"
  shows "stored_list h self vpath =
    (case map_of (data (nodes h1 n)) k of Some l \<Rightarrow> l | None \<Rightarrow> [])"
proof (cases "d = [] \<or> contains h self d")
  case True
  have t: "traverse h self d False = (Inr n, h1)"
    using traverse_dir_keys[of False d h self] True w by auto
  show ?thesis using s t
    by (simp add: stored_list_def getitem_def do_data_op_def Let_def list_ident_def
        split: option.splits)
next
  case False
  then have t: "traverse h self d False = (Inl (KeyError (''vpath '' @ d @ '' does not exist.'')), h)"
    by (simp add: traverse_not_contained)
  have st: "stored_list h self vpath = []"
    using s t by (simp add: stored_list_def getitem_def do_data_op_def)
  from False have "descend h (root self) (dir_keys d) = None"
    by (simp add: not_contains_descend)
  from setdefault_walk_fresh[OF ok r this w] have "data (nodes h1 n) = []" by simp
  with st show ?thesis by simp
qed

lemma log_one:
  assumes ok: "heap_ok h" and r: "root self < next_addr h"
    and s: "rsplit_vpath vpath = (d, k)"
    and w: "setdefault_walk h (root self) (dir_keys d) = (n, h1)"
  shows "log h self [StrV vpath, v] =
    (Inr (), set_data h1 n (AList.update k (stored_list h self vpath @ logged_items v)
       (data (nodes h1 n))))"
proof -
  have "fst ((if is_iterable v then list_extend v else list_append v) lst) = lst @ logged_items v"
    for lst by (simp add: list_extend_def list_append_def logged_items_def)
  then show ?thesis
    using do_data_op_create[OF s w, of "if is_iterable v then list_extend v else list_append v"]
      stored_list_eq[OF ok r s w]
    by (simp add: log_def)
qed

section \<open>Append or extend\<close>

lemma contains_data_key:
  assumes s: "rsplit_vpath vpath = (d, k)"
    and n: "descend h (root self) (dir_keys d) = Some n"
    and l: "map_of (data (nodes h n)) k = Some l"
    and reg: "CHR ''/'' \<notin> set vpath \<or> d \<noteq> []"
  shows "contains h self vpath"
proof (cases "CHR ''/'' \<in> set vpath")
  case False
  then have dk: "d = []" "k = vpath" using s by (simp_all add: rsplit_vpath_no_sep)
  then have "n = root self" using n by (simp add: dir_keys_def)
  then show ?thesis using False dk l
    by (simp add: contains_def Let_def key_in_def str_split_no_sep)
next
  case True
  then have dne: "d \<noteq> []" using reg by simp
  have sp: "str_split (CHR ''/'') vpath = str_split (CHR ''/'') d @ [k]"
    by (rule str_split_rsplit[OF True s])
  have "descend h (root self) (str_split (CHR ''/'') d) = Some n"
    using n dne by (simp add: dir_keys_def)
  then show ?thesis using l sp
    by (simp add: contains_def Let_def key_in_def)
qed

text \<open>
  Claim C3, amended. \<open>log(path, value)\<close> adds the value as one element when it is not
  iterable and adds its elements, in order, when it is: an integer or \<open>None\<close> is one
  element, a list is unpacked element by element, and a string, which is iterable, is
  unpacked into its characters. On a well-formed store the call returns, and the direct
  read of the path then gives the list that was stored before (the empty list when there
  was none) followed by what was added; so does \<open>get\<close>, for every path but those of the
  form \<open>/key\<close> with a single leading separator, which \<open>get\<close> does not find.
\<close>

theorem log_appends_or_extends:
  assumes ok: "heap_ok h" and r: "root self < next_addr h"
  shows "logged_items (IntV i) = [IntV i] \<and> logged_items NoneV = [NoneV]
       \<and> logged_items (ListV vs) = vs \<and> logged_items (StrV s) = map (\<lambda>c. StrV [c]) s
       \<and> (\<exists>h'. log h self [StrV vpath, v] = (Inr (), h')
            \<and> getitem h' self vpath =
                 (Inr (ListV (stored_list h self vpath @ logged_items v)), h')
            \<and> (CHR ''/'' \<notin> set vpath \<or> fst (rsplit_vpath vpath) \<noteq> [] \<longrightarrow>
                 get h' self vpath dflt =
                   (Inr (ListV (stored_list h self vpath @ logged_items v)), h')))"
proof -
  obtain d k where s: "rsplit_vpath vpath = (d, k)" by fastforce
  obtain n h1 where w: "setdefault_walk h (root self) (dir_keys d) = (n, h1)" by fastforce
  let ?l = "stored_list h self vpath @ logged_items v"
  let ?h' = "set_data h1 n (AList.update k ?l (data (nodes h1 n)))"
  have lg: "log h self [StrV vpath, v] = (Inr (), ?h')" by (rule log_one[OF ok r s w])
  have dn: "descend ?h' (root self) (dir_keys d) = Some n"
    using setdefault_walk_descend[OF ok r w] by (simp add: descend_set_data)
  have lk: "map_of (data (nodes ?h' n)) k = Some ?l"
    by (simp add: set_data_simps update_conv')
  have gi: "getitem ?h' self vpath = (Inr (ListV ?l), ?h')"
    by (rule getitem_found[OF s dn lk])
  have ge: "CHR ''/'' \<notin> set vpath \<or> fst (rsplit_vpath vpath) \<noteq> [] \<longrightarrow>
      get ?h' self vpath dflt = (Inr (ListV ?l), ?h')"
  proof
    assume "CHR ''/'' \<notin> set vpath \<or> fst (rsplit_vpath vpath) \<noteq> []"
    then have "CHR ''/'' \<notin> set vpath \<or> d \<noteq> []" using s by simp
    from contains_data_key[OF s dn lk this] gi
    show "get ?h' self vpath dflt = (Inr (ListV ?l), ?h')" by (simp add: get_def)
  qed
  have items: "logged_items (IntV i) = [IntV i] \<and> logged_items NoneV = [NoneV]
       \<and> logged_items (ListV vs) = vs \<and> logged_items (StrV s) = map (\<lambda>c. StrV [c]) s"
    by (simp add: logged_items_def)
  from items lg gi ge show ?thesis by blast
qed

theorem log_appends_or_extends_witness:
  "(\<exists>h1 h2 h3.
      log store0 logger0 [StrV ''v'', IntV 5] = (Inr (), h1)
      \<and> get h1 logger0 ''v'' NoneV = (Inr (ListV [IntV 5]), h1)
      \<and> log h1 logger0 [StrV ''v'', ListV [IntV 6, IntV 7]] = (Inr (), h2)
      \<and> get h2 logger0 ''v'' NoneV = (Inr (ListV [IntV 5, IntV 6, IntV 7]), h2)
      \<and> log h2 logger0 [StrV ''v'', StrV ''ab''] = (Inr (), h3)
      \<and> get h3 logger0 ''v'' NoneV =
           (Inr (ListV [IntV 5, IntV 6, IntV 7, StrV ''a'', StrV ''b'']), h3))"
proof -
  have s0: "stored_list store0 logger0 ''v'' = []"
    by (simp add: stored_list_def eval_defs store0_def logger0_def)
  have reg: "CHR ''/'' \<notin> set ''v'' \<or> fst (rsplit_vpath ''v'') \<noteq> []" by simp
  from log_appends_or_extends[OF store0_ok, of _ _ _ "''v''" "IntV 5" NoneV] reg s0
  obtain h1 where l1: "log store0 logger0 [StrV ''v'', IntV 5] = (Inr (), h1)"
    and g1: "get h1 logger0 ''v'' NoneV = (Inr (ListV [IntV 5]), h1)"
    and i1: "getitem h1 logger0 ''v'' = (Inr (ListV [IntV 5]), h1)"
    by (auto simp: logged_items_def)
  have ok1: "heap_ok h1" "root logger0 < next_addr h1"
    using log_ok'[OF store0_ok, of "[StrV ''v'', IntV 5]"] l1 by simp_all
  have s1: "stored_list h1 logger0 ''v'' = [IntV 5]"
    using i1 by (simp add: stored_list_def)
  from log_appends_or_extends[OF ok1, of _ _ _ "''v''" "ListV [IntV 6, IntV 7]" NoneV] reg s1
  obtain h2 where l2: "log h1 logger0 [StrV ''v'', ListV [IntV 6, IntV 7]] = (Inr (), h2)"
    and g2: "get h2 logger0 ''v'' NoneV = (Inr (ListV [IntV 5, IntV 6, IntV 7]), h2)"
    and i2: "getitem h2 logger0 ''v'' = (Inr (ListV [IntV 5, IntV 6, IntV 7]), h2)"
    by (auto simp: logged_items_def)
  have ok2: "heap_ok h2" "root logger0 < next_addr h2"
    using log_ok'[OF ok1, of "[StrV ''v'', ListV [IntV 6, IntV 7]]"] l2 by simp_all
  have s2: "stored_list h2 logger0 ''v'' = [IntV 5, IntV 6, IntV 7]"
    using i2 by (simp add: stored_list_def)
  from log_appends_or_extends[OF ok2, of _ _ _ "''v''" "StrV ''ab''" NoneV] reg s2
  obtain h3 where l3: "log h2 logger0 [StrV ''v'', StrV ''ab''] = (Inr (), h3)"
    and g3: "get h3 logger0 ''v'' NoneV =
      (Inr (ListV [IntV 5, IntV 6, IntV 7, StrV ''a'', StrV ''b'']), h3)"
    by (auto simp: logged_items_def)
  from l1 g1 l2 g2 l3 g3 show ?thesis by blast
qed

text \<open>
  Claim C3 as stated lets a string be one element. \<open>log("v", "ab")\<close> on a new logger
  stores the two characters.
\<close>

theorem log_string_is_spliced:
  "(let (r, h1) = log store0 logger0 [StrV ''v'', StrV ''ab'']
    in fst (get h1 logger0 ''v'' NoneV) = Inr (ListV [StrV ''a'', StrV ''b''])
       \<and> fst (get h1 logger0 ''v'' NoneV) \<noteq> Inr (ListV [StrV ''ab'']))"
  by (simp add: eval_defs store0_def logger0_def)

section \<open>Round trip: paths and keys\<close>

lemma str_join_split: "str_join sep (str_split sep s) = s"
proof (induction s)
  case Nil
  then show ?case by simp
next
  case (Cons c s)
  obtain x xs where sp: "str_split sep s = x # xs"
    using str_split_nonempty[of sep s] by (cases "str_split sep s") auto
  from Cons sp have IH: "str_join sep (x # xs) = s" by simp
  show ?case
  proof (cases "c = sep")
    case True
    then have "str_split sep (c # s) = [] # x # xs" using sp by simp
    then show ?thesis using IH True by simp
  next
    case False
    then have e: "str_split sep (c # s) = (c # x) # xs" using sp by simp
    show ?thesis
    proof (cases xs)
      case Nil
      then show ?thesis using e IH by simp
    next
      case (Cons t ss)
      then show ?thesis using e IH by simp
    qed
  qed
qed

lemma str_split_inj:
  assumes "str_split sep p = str_split sep q"
  shows "p = q"
proof -
  have "str_join sep (str_split sep p) = str_join sep (str_split sep q)"
    using assms by simp
  then show ?thesis unfolding str_join_split .
qed

lemma plain_vpath_keys:
  assumes "plain_vpath p"
  shows "vdir p @ [vkey p] = str_split (CHR ''/'') p"
proof (cases "CHR ''/'' \<in> set p")
  case False
  then have "rsplit_vpath p = ([], p)" by (rule rsplit_vpath_no_sep)
  then show ?thesis using False
    by (simp add: vdir_def vkey_def dir_keys_def str_split_no_sep)
next
  case True
  obtain d k where s: "rsplit_vpath p = (d, k)" by fastforce
  with assms True have "d \<noteq> []" by (simp add: plain_vpath_def)
  then show ?thesis using str_split_rsplit[OF True s] s
    by (simp add: vdir_def vkey_def dir_keys_def)
qed

lemma plain_vpath_inj:
  assumes "plain_vpath p" "plain_vpath q" "vdir p = vdir q" "vkey p = vkey q"
  shows "p = q"
proof -
  have "str_split (CHR ''/'') p = str_split (CHR ''/'') q"
    using plain_vpath_keys[OF assms(1)] plain_vpath_keys[OF assms(2)] assms(3,4) by simp
  then show ?thesis by (rule str_split_inj)
qed

section \<open>What a walk with creation adds\<close>

lemma children_setdefault_edges:
  assumes ok: "heap_ok h" and a: "a < next_addr h"
    and step: "children_setdefault h a key = (c, h')"
    and u: "u < next_addr h'" and e: "map_of (children (nodes h' u)) k = Some m"
  shows "(u < next_addr h \<and> map_of (children (nodes h u)) k = Some m)
       \<or> (u = a \<and> k = key \<and> m = c \<and> next_addr h \<le> m)"
proof (cases "map_of (children (nodes h a)) key")
  case (Some c')
  then have "h' = h" using step by (simp add: children_setdefault_present)
  then show ?thesis using u e by simp
next
  case None
  note abs = children_setdefault_absent[OF None a step]
  have ch: "children (nodes h' u) =
      (if u = a then children (nodes h a) @ [(key, c)] else if u = c then [] else children (nodes h u))"
    by (rule abs(3))
  show ?thesis
  proof (cases "u = a")
    case True
    show ?thesis
    proof (cases "map_of (children (nodes h a)) k")
      case None
      then have "k = key \<and> m = c" using e ch True
        by (auto simp: map_add_def split: if_splits option.splits)
      then show ?thesis using True abs(1) by simp
    next
      case (Some m')
      then have "m = m'" using e ch True by (simp add: map_add_def)
      then show ?thesis using True a Some by simp
    qed
  next
    case False
    then have "u \<noteq> c" using e ch by auto
    then have "u < next_addr h" using u abs(1,2) by simp
    then show ?thesis using e ch False \<open>u \<noteq> c\<close> by simp
  qed
qed

lemma setdefault_walk_edges:
  "heap_ok h \<Longrightarrow> a < next_addr h \<Longrightarrow> setdefault_walk h a path = (n, h1) \<Longrightarrow>
   u < next_addr h1 \<Longrightarrow> map_of (children (nodes h1 u)) k = Some m \<Longrightarrow>
   (u < next_addr h \<and> map_of (children (nodes h u)) k = Some m)
   \<or> (next_addr h \<le> m \<and> (\<exists>pre. prefix (pre @ [k]) path \<and> descend h1 a pre = Some u))"
proof (induction path arbitrary: h a)
  case Nil
  then show ?case by simp
next
  case (Cons key rest)
  obtain c h' where step: "children_setdefault h a key = (c, h')" by fastforce
  note bd = children_setdefault_bounds[OF Cons.prems(1,2) step]
  have ok': "heap_ok h'" by (rule children_setdefault_ok[OF Cons.prems(1,2) step])
  have w: "setdefault_walk h' c rest = (n, h1)" using Cons.prems(3) step by simp
  have a': "a < next_addr h'" using Cons.prems(2) bd(3) by simp
  have ac: "map_of (children (nodes h1 a)) key = Some c"
    by (rule setdefault_walk_mono[OF ok' bd(2) w a' children_setdefault_lookup[OF Cons.prems(2) step]])
  from Cons.IH[OF ok' bd(2) w Cons.prems(4,5)]
  show ?case
  proof
    assume old: "u < next_addr h' \<and> map_of (children (nodes h' u)) k = Some m"
    from children_setdefault_edges[OF Cons.prems(1,2) step] old
    have "(u < next_addr h \<and> map_of (children (nodes h u)) k = Some m)
       \<or> (u = a \<and> k = key \<and> m = c \<and> next_addr h \<le> m)" by simp
    then show ?thesis
    proof
      assume "u < next_addr h \<and> map_of (children (nodes h u)) k = Some m"
      then show ?thesis by simp
    next
      assume n: "u = a \<and> k = key \<and> m = c \<and> next_addr h \<le> m"
      then have "prefix ([] @ [k]) (key # rest) \<and> descend h1 a [] = Some u" by simp
      then show ?thesis using n by blast
    qed
  next
    assume new: "next_addr h' \<le> m \<and> (\<exists>pre. prefix (pre @ [k]) rest \<and> descend h1 c pre = Some u)"
    then obtain pre where pre: "prefix (pre @ [k]) rest" "descend h1 c pre = Some u" by blast
    have "prefix ((key # pre) @ [k]) (key # rest)" using pre(1) by simp
    moreover have "descend h1 a (key # pre) = Some u" using ac pre(2) by simp
    moreover have "next_addr h \<le> m" using new bd(3) by simp
    ultimately show ?thesis by blast
  qed
qed

lemma setdefault_walk_new_data:
  "heap_ok h \<Longrightarrow> a < next_addr h \<Longrightarrow> setdefault_walk h a path = (n, h1) \<Longrightarrow>
   next_addr h \<le> b \<Longrightarrow> b < next_addr h1 \<Longrightarrow> data (nodes h1 b) = []"
proof (induction path arbitrary: h a)
  case Nil
  then show ?case by simp
next
  case (Cons key rest)
  obtain c h' where step: "children_setdefault h a key = (c, h')" by fastforce
  note bd = children_setdefault_bounds[OF Cons.prems(1,2) step]
  have ok': "heap_ok h'" by (rule children_setdefault_ok[OF Cons.prems(1,2) step])
  have w: "setdefault_walk h' c rest = (n, h1)" using Cons.prems(3) step by simp
  show ?case
  proof (cases "b < next_addr h'")
    case False
    then show ?thesis using Cons.IH[OF ok' bd(2) w _ Cons.prems(5)] by simp
  next
    case True
    have ne: "map_of (children (nodes h a)) key = None"
    proof (cases "map_of (children (nodes h a)) key")
      case None
      then show ?thesis .
    next
      case (Some c')
      then have "h' = h" using step by (simp add: children_setdefault_present)
      then show ?thesis using True Cons.prems(4) by simp
    qed
    note abs = children_setdefault_absent[OF ne Cons.prems(2) step]
    have "b = c" using True Cons.prems(4) abs(1,2) by simp
    then have "data (nodes h' b) = []" using abs(4)[of b] by simp
    then show ?thesis using setdefault_walk_data[OF ok' bd(2) w True] by simp
  qed
qed

lemma setdefault_walk_paths:
  assumes ok: "heap_ok h" and a: "a < next_addr h"
    and w: "setdefault_walk h a path = (n, h1)"
  shows "descend h1 a ks = Some m \<Longrightarrow>
    descend h a ks = Some m \<or> (prefix ks path \<and> next_addr h \<le> m)"
proof (induction ks arbitrary: m rule: rev_induct)
  case Nil
  then show ?case by simp
next
  case (snoc k q)
  note wok = setdefault_walk_ok[OF ok a w]
  have ok1: "heap_ok h1" and a1: "a < next_addr h1" using wok a by simp_all
  from snoc.prems obtain u where u: "descend h1 a q = Some u"
    and e: "map_of (children (nodes h1 u)) k = Some m"
    by (auto simp: descend_append split: option.splits)
  have u1: "u < next_addr h1" using descend_bounds[OF ok1 a1 u] by simp
  from setdefault_walk_edges[OF ok a w u1 e]
  show ?case
  proof
    assume old: "u < next_addr h \<and> map_of (children (nodes h u)) k = Some m"
    from snoc.IH[OF u] old have "descend h a q = Some u" by auto
    then show ?thesis using old by (simp add: descend_append)
  next
    assume "next_addr h \<le> m \<and> (\<exists>pre. prefix (pre @ [k]) path \<and> descend h1 a pre = Some u)"
    then obtain pre where m: "next_addr h \<le> m" and pre: "prefix (pre @ [k]) path"
      and d: "descend h1 a pre = Some u" by blast
    from descend_inj[OF ok1 a1 d u] have "pre = q" .
    then show ?thesis using m pre by simp
  qed
qed

lemma descend_walk_mono:
  assumes ok: "heap_ok h" and a: "a < next_addr h"
    and w: "setdefault_walk h a path = (n, h1)"
  shows "b < next_addr h \<Longrightarrow> descend h b ks = Some m \<Longrightarrow> descend h1 b ks = Some m"
proof (induction ks arbitrary: b)
  case Nil
  then show ?case by simp
next
  case (Cons k ks)
  from Cons.prems(2) obtain c where c: "map_of (children (nodes h b)) k = Some c"
    and d: "descend h c ks = Some m" by (auto split: option.splits)
  have "map_of (children (nodes h1 b)) k = Some c"
    by (rule setdefault_walk_mono[OF ok a w Cons.prems(1) c])
  moreover have "descend h1 c ks = Some m"
    by (rule Cons.IH[OF heap_ok_child(2)[OF ok Cons.prems(1) c] d])
  ultimately show ?case by simp
qed

lemma logged_at_append: "logged_at p (calls @ [(q, v)]) =
    logged_at p calls @ (if q = p then logged_items v else [])"
  by (simp add: logged_at_def)

lemma logged_at_absent: "p \<notin> fst ` set calls \<Longrightarrow> logged_at p calls = []"
  by (induction calls) (auto simp: logged_at_def)

lemma logs_inv_new:
  assumes "data (nodes h r) = []" "children (nodes h r) = []"
  shows "logs_inv h r []"
proof -
  have "\<And>ks n. descend h r ks = Some n \<Longrightarrow> ks = [] \<and> n = r"
  proof -
    fix ks n assume "descend h r ks = Some n"
    then show "ks = [] \<and> n = r" using assms(2) by (cases ks) auto
  qed
  then show ?thesis using assms(1) unfolding logs_inv_def by fastforce
qed

section \<open>Round trip: the tree after a run of calls\<close>

lemma logs_inv_step:
  assumes ok: "heap_ok h" and r: "root self < next_addr h"
    and inv: "logs_inv h (root self) calls"
    and plain: "\<forall>q \<in> fst ` set calls. plain_vpath q" and pp: "plain_vpath p"
  shows "logs_inv (snd (log h self [StrV p, v])) (root self) (calls @ [(p, v)])"
proof -
  let ?r = "root self"
  obtain d k where s: "rsplit_vpath p = (d, k)" by fastforce
  have vd: "vdir p = dir_keys d" and vk: "vkey p = k" using s by (simp_all add: vdir_def vkey_def)
  obtain n h1 where w: "setdefault_walk h ?r (dir_keys d) = (n, h1)" by fastforce
  let ?st = "stored_list h self p"
  let ?l = "?st @ logged_items v"
  let ?h' = "set_data h1 n (AList.update k ?l (data (nodes h1 n)))"
  have lg: "snd (log h self [StrV p, v]) = ?h'" using log_one[OF ok r s w, of v] by simp
  have st: "?st = (case map_of (data (nodes h1 n)) k of Some l \<Rightarrow> l | None \<Rightarrow> [])"
    by (rule stored_list_eq[OF ok r s w])
  note wok = setdefault_walk_ok[OF ok r w]
  have ok1: "heap_ok h1" and r1: "?r < next_addr h1" using wok r by simp_all
  have dn: "descend h1 ?r (dir_keys d) = Some n" by (rule setdefault_walk_descend[OF ok r w])
  have dh': "\<And>ks. descend ?h' ?r ks = descend h1 ?r ks" by (simp add: descend_set_data)
  have I2: "\<And>ks n k l. descend h ?r ks = Some n \<Longrightarrow> map_of (data (nodes h n)) k = Some l \<Longrightarrow>
      \<exists>q \<in> fst ` set calls. vdir q = ks \<and> vkey q = k \<and> l = logged_at q calls"
    using inv unfolding logs_inv_def by blast
  have I3: "\<And>q. q \<in> fst ` set calls \<Longrightarrow> \<exists>n. descend h ?r (vdir q) = Some n
      \<and> map_of (data (nodes h n)) (vkey q) = Some (logged_at q calls)"
    using inv unfolding logs_inv_def by blast
  have I4: "\<And>ks n. ks \<noteq> [] \<Longrightarrow> descend h ?r ks = Some n \<Longrightarrow>
      \<exists>q \<in> fst ` set calls. prefix ks (vdir q)"
    using inv unfolding logs_inv_def by blast
  \<comment> \<open>a node with data in \<open>h1\<close> is a node of \<open>h\<close> at the same path with the same data\<close>
  have old: "descend h ?r ks = Some m \<and> map_of (data (nodes h m)) kk = Some l"
    if "descend h1 ?r ks = Some m" "map_of (data (nodes h1 m)) kk = Some l" for ks m kk l
  proof -
    have m1: "m < next_addr h1" using descend_bounds[OF ok1 r1 that(1)] by simp
    have "data (nodes h1 m) \<noteq> []" using that(2) by auto
    then have mo: "m < next_addr h"
      using setdefault_walk_new_data[OF ok r w _ m1] by (cases "m < next_addr h") auto
    from setdefault_walk_paths[OF ok r w that(1)] mo have "descend h ?r ks = Some m" by auto
    moreover have "data (nodes h1 m) = data (nodes h m)" by (rule setdefault_walk_data[OF ok r w mo])
    ultimately show ?thesis using that(2) by simp
  qed
  \<comment> \<open>a node of \<open>h\<close> is still there, with its data\<close>
  have keep: "descend h1 ?r ks = Some m \<and> data (nodes h1 m) = data (nodes h m)"
    if "descend h ?r ks = Some m" for ks m
  proof -
    have "m < next_addr h" using descend_bounds[OF ok r that] by simp
    then show ?thesis
      using descend_walk_mono[OF ok r w r that] setdefault_walk_data[OF ok r w] by simp
  qed
  have stored: "?st = logged_at p calls"
  proof (cases "map_of (data (nodes h1 n)) k")
    case (Some l0)
    from old[OF dn Some] I2 obtain q where q: "q \<in> fst ` set calls" "vdir q = dir_keys d"
      "vkey q = k" "l0 = logged_at q calls" by blast
    have "q = p" using plain_vpath_inj[of q p] plain q pp vd vk by simp
    then show ?thesis using st Some q(4) by simp
  next
    case None
    have "p \<notin> fst ` set calls"
    proof
      assume "p \<in> fst ` set calls"
      from I3[OF this] obtain n0 where n0: "descend h ?r (vdir p) = Some n0"
        "map_of (data (nodes h n0)) (vkey p) = Some (logged_at p calls)" by blast
      from keep[OF n0(1)] dn vd have "n0 = n" "data (nodes h1 n) = data (nodes h n)" by simp_all
      then show False using n0(2) None vk by simp
    qed
    then show ?thesis using st None by (simp add: logged_at_absent)
  qed
  have newl: "?l = logged_at p (calls @ [(p, v)])"
    using stored by (simp add: logged_at_append)
  have c2: "\<exists>q \<in> fst ` set (calls @ [(p, v)]). vdir q = ks \<and> vkey q = kk
      \<and> l = logged_at q (calls @ [(p, v)])"
    if dk: "descend ?h' ?r ks = Some m" and lk: "map_of (data (nodes ?h' m)) kk = Some l" for ks m kk l
  proof (cases "m = n \<and> kk = k")
    case True
    then have "l = ?l" using lk by (simp add: set_data_simps update_conv')
    moreover have "ks = dir_keys d"
      using descend_inj[OF ok1 r1, of ks n "dir_keys d"] dk dn True by (simp add: dh')
    ultimately show ?thesis using newl vd vk True by auto
  next
    case False
    then have "map_of (data (nodes h1 m)) kk = Some l"
      using lk by (auto simp: set_data_simps update_conv' split: if_splits)
    from old[OF _ this] dk have o: "descend h ?r ks = Some m" "map_of (data (nodes h m)) kk = Some l"
      by (simp_all add: dh')
    from I2[OF o] obtain q where q: "q \<in> fst ` set calls" "vdir q = ks" "vkey q = kk"
      "l = logged_at q calls" by blast
    have "q \<noteq> p"
    proof
      assume "q = p"
      then have "ks = dir_keys d" "kk = k" using q vd vk by simp_all
      then have "m = n" using dk dn by (simp add: dh')
      then show False using False \<open>kk = k\<close> by simp
    qed
    then have "logged_at q (calls @ [(p, v)]) = logged_at q calls" by (simp add: logged_at_append)
    then show ?thesis using q by auto
  qed
  have c3: "\<exists>m. descend ?h' ?r (vdir q) = Some m
      \<and> map_of (data (nodes ?h' m)) (vkey q) = Some (logged_at q (calls @ [(p, v)]))"
    if "q \<in> fst ` set (calls @ [(p, v)])" for q
  proof (cases "q = p")
    case True
    have "map_of (data (nodes ?h' n)) k = Some ?l" by (simp add: set_data_simps update_conv')
    then have "map_of (data (nodes ?h' n)) (vkey p) = Some (logged_at p (calls @ [(p, v)]))"
      unfolding vk newl[symmetric] .
    moreover have "descend ?h' ?r (vdir p) = Some n" unfolding dh' vd by (rule dn)
    ultimately show ?thesis unfolding True by blast
  next
    case False
    then have qc: "q \<in> fst ` set calls" using that by auto
    from I3[OF qc] obtain n0 where n0: "descend h ?r (vdir q) = Some n0"
      "map_of (data (nodes h n0)) (vkey q) = Some (logged_at q calls)" by blast
    note k0 = keep[OF n0(1)]
    have "\<not> (n0 = n \<and> vkey q = k)"
    proof
      assume e: "n0 = n \<and> vkey q = k"
      then have "vdir q = dir_keys d" using descend_inj[OF ok1 r1, of "vdir q" n "dir_keys d"] k0 dn
        by simp
      then have "q = p" using plain_vpath_inj[of q p] plain qc pp vd vk e by simp
      then show False using False by simp
    qed
    then have "map_of (data (nodes ?h' n0)) (vkey q) = map_of (data (nodes h1 n0)) (vkey q)"
      by (auto simp: set_data_simps update_conv')
    moreover have "logged_at q (calls @ [(p, v)]) = logged_at q calls"
      using False by (simp add: logged_at_append)
    ultimately show ?thesis using k0 n0(2) by (auto simp: dh')
  qed
  have c4: "\<exists>q \<in> fst ` set (calls @ [(p, v)]). prefix ks (vdir q)"
    if "ks \<noteq> []" "descend ?h' ?r ks = Some m" for ks m
  proof -
    from that(2) have "descend h1 ?r ks = Some m" by (simp add: dh')
    from setdefault_walk_paths[OF ok r w this]
    show ?thesis
    proof
      assume "descend h ?r ks = Some m"
      from I4[OF that(1) this] show ?thesis by auto
    next
      assume "prefix ks (dir_keys d) \<and> next_addr h \<le> m"
      then show ?thesis using vd by auto
    qed
  qed
  show ?thesis unfolding lg logs_inv_def using c2 c3 c4 by blast
qed

lemma log_each_inv:
  "heap_ok h \<Longrightarrow> root self < next_addr h \<Longrightarrow> logs_inv h (root self) done \<Longrightarrow>
   \<forall>q \<in> fst ` set (done @ rest). plain_vpath q \<Longrightarrow>
   heap_ok (log_each h self rest) \<and> root self < next_addr (log_each h self rest)
   \<and> logs_inv (log_each h self rest) (root self) (done @ rest)"
proof (induction rest arbitrary: h "done")
  case Nil
  then show ?case by simp
next
  case (Cons pv rest)
  obtain p v where pv: "pv = (p, v)" by fastforce
  let ?h = "snd (log h self [StrV p, v])"
  have pl: "\<forall>q \<in> fst ` set done. plain_vpath q" "plain_vpath p"
    using Cons.prems(4) pv by auto
  have inv: "logs_inv ?h (root self) (done @ [(p, v)])"
    by (rule logs_inv_step[OF Cons.prems(1,2,3) pl])
  note ok = log_ok'[OF Cons.prems(1,2), of "[StrV p, v]"]
  have "\<forall>q \<in> fst ` set ((done @ [(p, v)]) @ rest). plain_vpath q"
    using Cons.prems(4) pv by auto
  from Cons.IH[OF ok inv this] show ?case using pv by simp
qed

lemma log_vpaths_vals_each:
  "log_vpaths_vals h self m = (Inr (), log_each h self m)"
proof (induction m arbitrary: h)
  case Nil
  then show ?case by simp
next
  case (Cons pv m)
  obtain p v where pv: "pv = (p, v)" by fastforce
  obtain r h1 where
    d: "do_data_op h self p (if is_iterable v then list_extend v else list_append v) True = (Inr r, h1)"
    using do_data_op_create_returns by blast
  then have "snd (log h self [StrV p, v]) = h1" by (simp add: log_def)
  then show ?case using pv d Cons.IH[of h1] by simp
qed

lemma log_mapping_each: "log h self [DictV m] = (Inr (), log_each h self m)"
  by (simp add: log_def log_vpaths_vals_each)

section \<open>Round trip: reading the export\<close>

lemma parse_children_empty_iff:
  "parse_children n h cs result = Some r \<Longrightarrow>
   r = [] \<longleftrightarrow> (result = [] \<and> (\<forall>k c. (k, c) \<in> set cs \<longrightarrow> node_parse n h c = Some []))"
proof (induction cs arbitrary: result)
  case Nil
  then show ?case by simp
next
  case (Cons kc cs)
  obtain key child where kc: "kc = (key, child)" by fastforce
  from Cons.prems kc obtain parsed where p: "node_parse n h child = Some parsed"
    and pc: "parse_children n h cs
      (if parsed \<noteq> [] then AList.update key (DictV parsed) result else result) = Some r"
    by (auto split: option.splits)
  have "(if parsed \<noteq> [] then AList.update key (DictV parsed) result else result) = []
      \<longleftrightarrow> parsed = [] \<and> result = []" by simp
  with Cons.IH[OF pc] p kc show ?case by auto
qed

lemma node_parse_empty_iff:
  assumes ok: "heap_ok h"
  shows "a < next_addr h \<Longrightarrow> node_parse n h a = Some res \<Longrightarrow>
    res = [] \<longleftrightarrow> (\<forall>m. in_subtree h a m \<longrightarrow> data (nodes h m) = [])"
proof (induction n arbitrary: a res)
  case 0
  then show ?case by simp
next
  case (Suc n)
  from Suc.prems(2) have pc: "parse_children n h (children (nodes h a))
      (map (\<lambda>kl. (fst kl, ListV (snd kl))) (data (nodes h a))) = Some res" by simp
  have child: "node_parse n h c = Some [] \<longleftrightarrow> (\<forall>m. in_subtree h c m \<longrightarrow> data (nodes h m) = [])"
    if e: "(k, c) \<in> set (children (nodes h a))" for k c
  proof -
    have c: "c < next_addr h" using heap_ok_edge[OF ok Suc.prems(1) e] by simp
    have "map_of (children (nodes h a)) k = Some c"
      using e heap_ok_distinct_children[OF ok Suc.prems(1)] by simp
    from parse_children_child[OF pc this heap_ok_distinct_children[OF ok Suc.prems(1)]]
    obtain p where p: "node_parse n h c = Some p" by blast
    from Suc.IH[OF c p] p show ?thesis by simp
  qed
  have "res = [] \<longleftrightarrow> (data (nodes h a) = []
      \<and> (\<forall>k c. (k, c) \<in> set (children (nodes h a)) \<longrightarrow> node_parse n h c = Some []))"
    using parse_children_empty_iff[OF pc] by simp
  also have "\<dots> \<longleftrightarrow> (data (nodes h a) = []
      \<and> (\<forall>k c. (k, c) \<in> set (children (nodes h a)) \<longrightarrow>
            (\<forall>m. in_subtree h c m \<longrightarrow> data (nodes h m) = [])))"
    using child by blast
  also have "\<dots> \<longleftrightarrow> (\<forall>m. in_subtree h a m \<longrightarrow> data (nodes h m) = [])"
    unfolding in_subtree_step[OF ok Suc.prems(1)] by fastforce
  finally show ?case .
qed

lemma dict_lookup_Cons:
  "ks \<noteq> [] \<Longrightarrow> dict_lookup d (k # ks) =
     (case map_of d k of Some (DictV d') \<Rightarrow> dict_lookup d' ks | _ \<Rightarrow> None)"
proof -
  assume "ks \<noteq> []"
  then obtain k' ks' where e: "ks = k' # ks'" by (cases ks) auto
  show ?thesis unfolding e by simp
qed

lemma export_has_data:
  assumes ok: "heap_ok h"
  shows "a < next_addr h \<Longrightarrow> node_parse n h a = Some res \<Longrightarrow> descend h a ks = Some m \<Longrightarrow>
    map_of (data (nodes h m)) k = Some l \<Longrightarrow> map_of (children (nodes h m)) k = None \<Longrightarrow>
    dict_lookup res (ks @ [k]) = Some (ListV l)"
proof (induction ks arbitrary: a n res)
  case Nil
  then have m: "m = a" by simp
  from Nil.prems(2) obtain n' where n: "n = Suc n'" by (cases n) simp_all
  from Nil.prems(2) n have pc: "parse_children n' h (children (nodes h a))
      (map (\<lambda>kl. (fst kl, ListV (snd kl))) (data (nodes h a))) = Some res" by simp
  from parse_children_other[OF pc] Nil.prems(4,5) m
  show ?case by (simp add: map_of_data_items)
next
  case (Cons k1 rest)
  from Cons.prems(3) obtain c where c: "map_of (children (nodes h a)) k1 = Some c"
    and d: "descend h c rest = Some m" by (auto split: option.splits)
  from Cons.prems(2) obtain n' where n: "n = Suc n'" by (cases n) simp_all
  from Cons.prems(2) n have pc: "parse_children n' h (children (nodes h a))
      (map (\<lambda>kl. (fst kl, ListV (snd kl))) (data (nodes h a))) = Some res" by simp
  from parse_children_child[OF pc c heap_ok_distinct_children[OF ok Cons.prems(1)]]
  obtain p where p: "node_parse n' h c = Some p"
    and r: "map_of res k1 = (if p \<noteq> [] then Some (DictV p)
        else map_of (map (\<lambda>kl. (fst kl, ListV (snd kl))) (data (nodes h a))) k1)" by blast
  have cb: "c < next_addr h" by (rule heap_ok_child(2)[OF ok Cons.prems(1) c])
  have "in_subtree h c m" using d unfolding in_subtree_def by blast
  moreover have "data (nodes h m) \<noteq> []" using Cons.prems(4) by auto
  ultimately have "p \<noteq> []" using node_parse_empty_iff[OF ok cb p] by blast
  then have "map_of res k1 = Some (DictV p)" using r by simp
  moreover have "dict_lookup p (rest @ [k]) = Some (ListV l)"
    by (rule Cons.IH[OF cb p d Cons.prems(4,5)])
  ultimately show ?case by (simp add: dict_lookup_Cons)
qed

lemma export_list_is_data:
  assumes ok: "heap_ok h"
  shows "a < next_addr h \<Longrightarrow> node_parse n h a = Some res \<Longrightarrow>
    dict_lookup res ks = Some (ListV l) \<Longrightarrow>
    \<exists>ks' k m. ks = ks' @ [k] \<and> descend h a ks' = Some m \<and> map_of (data (nodes h m)) k = Some l"
proof (induction ks arbitrary: a n res)
  case Nil
  then show ?case by simp
next
  case (Cons k1 rest)
  from Cons.prems(2) obtain n' where n: "n = Suc n'" by (cases n) simp_all
  from Cons.prems(2) n have pc: "parse_children n' h (children (nodes h a))
      (map (\<lambda>kl. (fst kl, ListV (snd kl))) (data (nodes h a))) = Some res" by simp
  let ?init = "map (\<lambda>kl. (fst kl, ListV (snd kl))) (data (nodes h a))"
  have init: "map_of ?init k1 = map_option ListV (map_of (data (nodes h a)) k1)"
    by (rule map_of_data_items)
  show ?case
  proof (cases "map_of (children (nodes h a)) k1")
    case None
    from parse_children_other[OF pc None] init
    have r: "map_of res k1 = map_option ListV (map_of (data (nodes h a)) k1)" by simp
    show ?thesis
    proof (cases rest)
      case Nil
      with Cons.prems(3) r have "map_of (data (nodes h a)) k1 = Some l" by auto
      then have "k1 # rest = [] @ [k1] \<and> descend h a [] = Some a
          \<and> map_of (data (nodes h a)) k1 = Some l" using Nil by simp
      then show ?thesis by blast
    next
      case (Cons k2 r2)
      with Cons.prems(3) r show ?thesis by (auto split: option.splits)
    qed
  next
    case (Some c)
    from parse_children_child[OF pc Some heap_ok_distinct_children[OF ok Cons.prems(1)]]
    obtain p where p: "node_parse n' h c = Some p"
      and r: "map_of res k1 = (if p \<noteq> [] then Some (DictV p) else map_of ?init k1)" by blast
    have cb: "c < next_addr h" by (rule heap_ok_child(2)[OF ok Cons.prems(1) Some])
    show ?thesis
    proof (cases "p = []")
      case True
      then have r': "map_of res k1 = map_option ListV (map_of (data (nodes h a)) k1)"
        using r init by simp
      show ?thesis
      proof (cases rest)
        case Nil
        with Cons.prems(3) r' have "map_of (data (nodes h a)) k1 = Some l" by auto
        then have "k1 # rest = [] @ [k1] \<and> descend h a [] = Some a
            \<and> map_of (data (nodes h a)) k1 = Some l" using Nil by simp
        then show ?thesis by blast
      next
        case (Cons k2 r2)
        with Cons.prems(3) r' show ?thesis by (auto split: option.splits)
      qed
    next
      case False
      then have r': "map_of res k1 = Some (DictV p)" using r by simp
      have ne: "rest \<noteq> []"
      proof
        assume "rest = []"
        with Cons.prems(3) r' show False by simp
      qed
      then have "dict_lookup p rest = Some (ListV l)"
        using Cons.prems(3) r' by (simp add: dict_lookup_Cons)
      from Cons.IH[OF cb p this] obtain ks' k m where
        e: "rest = ks' @ [k]" "descend h c ks' = Some m" "map_of (data (nodes h m)) k = Some l"
        by blast
      then have "k1 # rest = (k1 # ks') @ [k] \<and> descend h a (k1 # ks') = Some m
          \<and> map_of (data (nodes h m)) k = Some l" using Some by simp
      then show ?thesis by blast
    qed
  qed
qed

lemma pruning:
  assumes ok: "heap_ok h" and r: "root self < next_addr h"
    and a: "as_dict n h self = Some res"
    and c: "map_of (children (nodes h (root self))) k = Some c"
  shows "\<exists>m pc. node_parse m h c = Some pc
      \<and> (pc = [] \<longleftrightarrow> (\<forall>b. in_subtree h c b \<longrightarrow> data (nodes h b) = []))
      \<and> map_of res k = (if pc = [] then map_option ListV (map_of (data (nodes h (root self))) k)
                        else Some (DictV pc))"
proof -
  from a obtain n' where n: "n = Suc n'" by (cases n) (simp_all add: as_dict_def)
  from a n have pc: "parse_children n' h (children (nodes h (root self)))
      (map (\<lambda>kl. (fst kl, ListV (snd kl))) (data (nodes h (root self)))) = Some res"
    by (simp add: as_dict_def)
  from parse_children_child[OF pc c heap_ok_distinct_children[OF ok r]]
  obtain p where p: "node_parse n' h c = Some p"
    and m: "map_of res k = (if p \<noteq> [] then Some (DictV p)
        else map_of (map (\<lambda>kl. (fst kl, ListV (snd kl))) (data (nodes h (root self)))) k)"
    by blast
  have cb: "c < next_addr h" by (rule heap_ok_child(2)[OF ok r c])
  have "p = [] \<longleftrightarrow> (\<forall>b. in_subtree h c b \<longrightarrow> data (nodes h b) = [])"
    by (rule node_parse_empty_iff[OF ok cb p])
  moreover have "map_of res k =
      (if p = [] then map_option ListV (map_of (data (nodes h (root self))) k) else Some (DictV p))"
    using m by (simp add: map_of_data_items)
  ultimately show ?thesis using p by blast
qed

lemma round_trip:
  assumes ok: "heap_ok h" and r: "root self < next_addr h"
    and inv: "logs_inv h (root self) calls"
    and plain: "\<forall>p \<in> fst ` set calls. plain_vpath p"
    and nocol: "collision_free calls"
    and a: "as_dict n h self = Some res"
  shows "(\<forall>p \<in> fst ` set calls.
            dict_lookup res (str_split (CHR ''/'') p) = Some (ListV (logged_at p calls)))
       \<and> (\<forall>ks l. dict_lookup res ks = Some (ListV l) \<longrightarrow>
            (\<exists>p \<in> fst ` set calls. ks = str_split (CHR ''/'') p))"
proof (intro conjI ballI allI impI)
  have np: "node_parse n h (root self) = Some res" using a by (simp add: as_dict_def)
  have I2: "\<And>ks n k l. descend h (root self) ks = Some n \<Longrightarrow> map_of (data (nodes h n)) k = Some l \<Longrightarrow>
      \<exists>q \<in> fst ` set calls. vdir q = ks \<and> vkey q = k \<and> l = logged_at q calls"
    using inv unfolding logs_inv_def by blast
  have I3: "\<And>q. q \<in> fst ` set calls \<Longrightarrow> \<exists>n. descend h (root self) (vdir q) = Some n
      \<and> map_of (data (nodes h n)) (vkey q) = Some (logged_at q calls)"
    using inv unfolding logs_inv_def by blast
  have I4: "\<And>ks n. ks \<noteq> [] \<Longrightarrow> descend h (root self) ks = Some n \<Longrightarrow>
      \<exists>q \<in> fst ` set calls. prefix ks (vdir q)"
    using inv unfolding logs_inv_def by blast
  {
    fix p assume p: "p \<in> fst ` set calls"
    from I3[OF p] obtain m where m: "descend h (root self) (vdir p) = Some m"
      "map_of (data (nodes h m)) (vkey p) = Some (logged_at p calls)" by blast
    have "plain_vpath p" using plain p by blast
    then have keys: "vdir p @ [vkey p] = str_split (CHR ''/'') p"
      by (rule plain_vpath_keys)
    have nochild: "map_of (children (nodes h m)) (vkey p) = None"
    proof (cases "map_of (children (nodes h m)) (vkey p)")
      case None
      then show ?thesis .
    next
      case (Some c)
      with m(1) have "descend h (root self) (vdir p @ [vkey p]) = Some c"
        by (simp add: descend_append)
      from I4[OF _ this] obtain q where q: "q \<in> fst ` set calls"
        "prefix (vdir p @ [vkey p]) (vdir q)" by auto
      have "plain_vpath q" using plain q(1) by blast
      then have kq: "vdir q @ [vkey q] = str_split (CHR ''/'') q"
        by (rule plain_vpath_keys)
      from q(2) obtain zs where "vdir q = (vdir p @ [vkey p]) @ zs"
        unfolding prefix_def by blast
      then have "str_split (CHR ''/'') q = str_split (CHR ''/'') p @ (zs @ [vkey q])"
        using kq keys by simp
      then have "strict_prefix (str_split (CHR ''/'') p) (str_split (CHR ''/'') q)"
        by (simp add: strict_prefix_def)
      then show ?thesis using nocol p q(1) unfolding collision_free_def by blast
    qed
    from export_has_data[OF ok r np m nochild] keys
    show "dict_lookup res (str_split (CHR ''/'') p) = Some (ListV (logged_at p calls))" by simp
  }
  {
    fix ks l assume "dict_lookup res ks = Some (ListV l)"
    from export_list_is_data[OF ok r np this] obtain ks' k m where
      e: "ks = ks' @ [k]" "descend h (root self) ks' = Some m" "map_of (data (nodes h m)) k = Some l"
      by blast
    from I2[OF e(2,3)] obtain q where q: "q \<in> fst ` set calls" "vdir q = ks'" "vkey q = k" by blast
    have "plain_vpath q" using plain q(1) by blast
    then have "vdir q @ [vkey q] = str_split (CHR ''/'') q"
      by (rule plain_vpath_keys)
    then show "\<exists>p \<in> fst ` set calls. ks = str_split (CHR ''/'') p" using q e(1) by auto
  }
qed

section \<open>Round trip of the export\<close>

text \<open>
  Claim C5, amended. On a new logger, after a run of \<open>log\<close> calls (a \<open>log\<close> with a
  mapping is the run of its items) whose paths are plain and collision free,
  \<open>as_dict()\<close> returns, and its result holds at the segments of every logged path the
  list of the values logged under that path, in logging order, and holds no other list.
  At any node of a well-formed store the export leaves out a child whose subtree holds
  no data: the key of such a child is bound only if it is a data key, to its data list;
  the key of any other child is bound to the export of the child, which is not empty.
  In particular \<open>logger.log({"a/v": 1, "b/v": [2, 3]})\<close> gives
  \<open>{"a": {"v": [1]}, "b": {"v": [2, 3]}}\<close>.
\<close>

theorem as_dict_round_trip:
  assumes ok: "heap_ok h0"
    and plain: "\<forall>p \<in> fst ` set calls. plain_vpath p"
    and nocol: "collision_free calls"
  shows
    "(let (L, h) = new_logger h0; h' = log_each h L calls
      in log h L [DictV calls] = (Inr (), h')
         \<and> (\<exists>n res. as_dict n h' L = Some res)
         \<and> (\<forall>n res. as_dict n h' L = Some res \<longrightarrow>
              (\<forall>p \<in> fst ` set calls.
                 dict_lookup res (str_split (CHR ''/'') p) = Some (ListV (logged_at p calls)))
              \<and> (\<forall>ks l. dict_lookup res ks = Some (ListV l) \<longrightarrow>
                    (\<exists>p \<in> fst ` set calls. ks = str_split (CHR ''/'') p))))
     \<and> (\<forall>self n res k c. root self < next_addr h0 \<longrightarrow> as_dict n h0 self = Some res \<longrightarrow>
            map_of (children (nodes h0 (root self))) k = Some c \<longrightarrow>
            (\<exists>m pc. node_parse m h0 c = Some pc
               \<and> (pc = [] \<longleftrightarrow> (\<forall>b. in_subtree h0 c b \<longrightarrow> data (nodes h0 b) = []))
               \<and> map_of res k =
                   (if pc = [] then map_option ListV (map_of (data (nodes h0 (root self))) k)
                    else Some (DictV pc))))
     \<and> (let (L, h) = new_logger h0;
             h' = snd (log h L [DictV [(''a/v'', IntV 1), (''b/v'', ListV [IntV 2, IntV 3])]])
         in as_dict 2 h' L =
              Some [(''a'', DictV [(''v'', ListV [IntV 1])]),
                    (''b'', DictV [(''v'', ListV [IntV 2, IntV 3])])])"
proof (intro conjI)
  let ?L = "fst (new_logger h0)"
  let ?h = "snd (new_logger h0)"
  let ?h' = "log_each ?h ?L calls"
  note nl = new_logger_ok[OF ok]
  have inv0: "logs_inv ?h (root ?L) []" by (rule logs_inv_new[OF nl(4,5)])
  have pl: "\<forall>q \<in> fst ` set ([] @ calls). plain_vpath q" using plain by simp
  from log_each_inv[OF nl(1,2) inv0 pl]
  have ok': "heap_ok ?h'" and r': "root ?L < next_addr ?h'" and inv: "logs_inv ?h' (root ?L) calls"
    by simp_all
  have ex: "\<exists>n res. as_dict n ?h' ?L = Some res"
    using node_parse_total[OF ok' r' order_refl] unfolding as_dict_def by blast
  have rt: "\<forall>n res. as_dict n ?h' ?L = Some res \<longrightarrow>
      (\<forall>p \<in> fst ` set calls.
         dict_lookup res (str_split (CHR ''/'') p) = Some (ListV (logged_at p calls)))
      \<and> (\<forall>ks l. dict_lookup res ks = Some (ListV l) \<longrightarrow>
            (\<exists>p \<in> fst ` set calls. ks = str_split (CHR ''/'') p))"
    using round_trip[OF ok' r' inv plain nocol] by blast
  show "(let (L, h) = new_logger h0; h' = log_each h L calls
      in log h L [DictV calls] = (Inr (), h')
         \<and> (\<exists>n res. as_dict n h' L = Some res)
         \<and> (\<forall>n res. as_dict n h' L = Some res \<longrightarrow>
              (\<forall>p \<in> fst ` set calls.
                 dict_lookup res (str_split (CHR ''/'') p) = Some (ListV (logged_at p calls)))
              \<and> (\<forall>ks l. dict_lookup res ks = Some (ListV l) \<longrightarrow>
                    (\<exists>p \<in> fst ` set calls. ks = str_split (CHR ''/'') p))))"
    using ex rt log_mapping_each[of ?h ?L calls]
    by (simp add: case_prod_beta Let_def)
  show "\<forall>self n res k c. root self < next_addr h0 \<longrightarrow> as_dict n h0 self = Some res \<longrightarrow>
            map_of (children (nodes h0 (root self))) k = Some c \<longrightarrow>
            (\<exists>m pc. node_parse m h0 c = Some pc
               \<and> (pc = [] \<longleftrightarrow> (\<forall>b. in_subtree h0 c b \<longrightarrow> data (nodes h0 b) = []))
               \<and> map_of res k =
                   (if pc = [] then map_option ListV (map_of (data (nodes h0 (root self))) k)
                    else Some (DictV pc)))"
    using pruning[OF ok] by blast
  show "(let (L, h) = new_logger h0;
             h' = snd (log h L [DictV [(''a/v'', IntV 1), (''b/v'', ListV [IntV 2, IntV 3])]])
         in as_dict 2 h' L =
              Some [(''a'', DictV [(''v'', ListV [IntV 1])]),
                    (''b'', DictV [(''v'', ListV [IntV 2, IntV 3])])])"
    by (simp add: eval_defs numeral_2_eq_2)
qed

theorem as_dict_round_trip_witness:
  "as_dict 2 (log_each store0 logger0
       [(''a/v'', IntV 1), (''b/v'', ListV [IntV 2, IntV 3]), (''a/v'', IntV 4)]) logger0
     = Some [(''a'', DictV [(''v'', ListV [IntV 1, IntV 4])]),
             (''b'', DictV [(''v'', ListV [IntV 2, IntV 3])])]
   \<and> dict_lookup [(''a'', DictV [(''v'', ListV [IntV 1, IntV 4])]),
                   (''b'', DictV [(''v'', ListV [IntV 2, IntV 3])])] (str_split (CHR ''/'') ''a/v'')
     = Some (ListV (logged_at ''a/v''
         [(''a/v'', IntV 1), (''b/v'', ListV [IntV 2, IntV 3]), (''a/v'', IntV 4)]))
   \<and> logged_at ''a/v'' [(''a/v'', IntV 1), (''b/v'', ListV [IntV 2, IntV 3]), (''a/v'', IntV 4)]
     = [IntV 1, IntV 4]
   \<and> as_dict 2 (snd (make_child store0 logger0 ''child'')) logger0 = Some []
   \<and> (\<exists>m. node_parse m (snd (make_child store0 logger0 ''child'')) 1 = Some [])"
proof -
  let ?calls = "[(''a/v'', IntV 1), (''b/v'', ListV [IntV 2, IntV 3]), (''a/v'', IntV 4)]"
  let ?res = "[(''a'', DictV [(''v'', ListV [IntV 1, IntV 4])]),
               (''b'', DictV [(''v'', ListV [IntV 2, IntV 3])])]"
  have plain: "\<forall>p \<in> fst ` set ?calls. plain_vpath p"
    by (simp add: plain_vpath_def rsplit_vpath_def str_rsplit1_def)
  have nocol: "collision_free ?calls"
    by (simp add: collision_free_def)
  have e: "as_dict 2 (log_each store0 logger0 ?calls) logger0 = Some ?res"
    by (simp add: eval_defs store0_def logger0_def numeral_2_eq_2)
  from as_dict_round_trip[OF heap_ok_empty plain nocol]
  have A: "\<forall>n res. as_dict n (log_each store0 logger0 ?calls) logger0 = Some res \<longrightarrow>
      (\<forall>p \<in> fst ` set ?calls.
         dict_lookup res (str_split (CHR ''/'') p) = Some (ListV (logged_at p ?calls)))"
    unfolding case_prod_beta Let_def store0_def[symmetric] logger0_def[symmetric] by blast
  from A e have B: "\<forall>p \<in> fst ` set ?calls.
      dict_lookup ?res (str_split (CHR ''/'') p) = Some (ListV (logged_at p ?calls))"
    by blast
  have mem: "''a/v'' \<in> fst ` set ?calls" by simp
  have l: "dict_lookup ?res (str_split (CHR ''/'') ''a/v'')
      = Some (ListV (logged_at ''a/v'' ?calls))"
    by (rule bspec[OF B mem])
  have la: "logged_at ''a/v'' ?calls = [IntV 1, IntV 4]"
    by (simp add: logged_at_def logged_items_def)
  let ?h = "snd (make_child store0 logger0 ''child'')"
  have plain0: "\<forall>p \<in> fst ` set ([] :: (string \<times> val) list). plain_vpath p" by simp
  have nocol0: "collision_free []" by (simp add: collision_free_def)
  have ok: "heap_ok ?h" by (rule make_child_ok'(1)[OF store0_ok])
  have e0: "as_dict 2 ?h logger0 = Some []"
    by (simp add: eval_defs store0_def logger0_def numeral_2_eq_2)
  have r0: "root logger0 < next_addr ?h" by (rule make_child_ok'(2)[OF store0_ok])
  have c0: "map_of (children (nodes ?h (root logger0))) ''child'' = Some 1"
    by (simp add: eval_defs store0_def logger0_def)
  have d0: "data (nodes ?h (root logger0)) = []"
    by (simp add: eval_defs store0_def logger0_def)
  from as_dict_round_trip[OF ok plain0 nocol0] r0 e0 c0
  obtain m pc where p: "node_parse m ?h 1 = Some pc"
    and b: "map_of ([] :: (string \<times> val) list) ''child'' =
      (if pc = [] then map_option ListV (map_of (data (nodes ?h (root logger0))) ''child'')
       else Some (DictV pc))"
    by blast
  from b have "pc = []" by (simp split: if_splits)
  with p have pr: "\<exists>m. node_parse m ?h 1 = Some []" by blast
  from e l la e0 pr show ?thesis by blast
qed

text \<open>
  Claim C5 as stated fails on two runs of \<open>log\<close> calls. After \<open>log("a", 1)\<close> and
  \<open>log("a/b", 2)\<close> the export binds \<open>a\<close> to the branch and the list \<open>[1]\<close> logged under
  \<open>a\<close> is not in it. After \<open>log("/k", 1)\<close> the list is at the key \<open>k\<close> of the root, not
  under the empty segment.
\<close>

theorem as_dict_loses_logged_list:
  "as_dict 2 (log_each store0 logger0 [(''a'', IntV 1), (''a/b'', IntV 2)]) logger0
     = Some [(''a'', DictV [(''b'', ListV [IntV 2])])]
   \<and> logged_at ''a'' [(''a'', IntV 1), (''a/b'', IntV 2)] = [IntV 1]
   \<and> dict_lookup [(''a'', DictV [(''b'', ListV [IntV 2])])] (str_split (CHR ''/'') ''a'')
       \<noteq> Some (ListV [IntV 1])
   \<and> as_dict 2 (log_each store0 logger0 [(''/k'', IntV 1)]) logger0
     = Some [(''k'', ListV [IntV 1])]
   \<and> dict_lookup [(''k'', ListV [IntV 1])] (str_split (CHR ''/'') ''/k'') = None"
  by (simp add: eval_defs store0_def logger0_def numeral_2_eq_2 logged_at_def logged_items_def)

end
